theory Spec2Isabelle
  imports Main "HOL-Library.Word"
begin

section \<open>wspool: a pool of WebSocket connections\<close>

text \<open>
  The Go package keeps its connections behind pointers: a \<open>*WsConn\<close> held by a caller and
  the same \<open>*WsConn\<close> stored in \<open>Pool.conns\<close> are one object. The embedding therefore has
  an explicit store. A handle is an address into \<open>heap\<close>; an address outside the heap
  stands for the nil pointer, and dereferencing it is a panic. The \<open>*websocket.Conn\<close>
  of the gorilla library is an index into \<open>net\<close>, the list of transport connections
  dialled so far (\<open>True\<close> while the transport is open).

  Everything the package does not decide itself is read from an environment: whether the
  n-th call of \<open>Dial\<close> succeeds, the value of the n-th reading of \<open>time.Now()\<close>, and what
  the transport answers to a close, a write and a read. The mutexes are left out: every
  operation below is one critical section, and operations are interleaved sequentially.
\<close>

subsection \<open>Errors and panics\<close>

datatype error =
    ErrorString string    \<comment> \<open>\<open>errors.New(msg)\<close>\<close>
  | DialError nat         \<comment> \<open>the error of the n-th \<open>Dial\<close>\<close>
  | TransportError nat    \<comment> \<open>an error reported by the transport\<close>

datatype panic =
    NilDereference          \<comment> \<open>invalid memory address or nil pointer dereference\<close>
  | IndexOutOfRange         \<comment> \<open>\<open>p.conns[len(p.conns)-1]\<close> on an empty slice\<close>
  | MakesliceCapOutOfRange  \<comment> \<open>\<open>make([]*WsConn, 0, n)\<close> with negative \<open>n\<close>\<close>
  | NonPositiveInterval     \<comment> \<open>\<open>time.NewTicker(d)\<close> with \<open>d <= 0\<close>\<close>

datatype 'a outcome = Returns 'a | Panic panic

subsection \<open>Data\<close>

type_synonym int32 = "32 word"
type_synonym Duration = "64 word"
type_synonym Time = int

record WsConn =
  c :: "nat option"          \<comment> \<open>\<open>*websocket.Conn\<close>; \<open>None\<close> is nil\<close>
  p :: "unit option"         \<comment> \<open>\<open>*Pool\<close>; \<open>None\<close> is nil\<close>
  createdAt :: Time
  lastUsedAt :: Time

record Config =
  MaxConnLifetime :: Duration
  MaxConnIdleTime :: Duration
  MaxConn :: int32
  MinConn :: int32
  HealthCheckPeriod :: Duration
  Dialer :: "nat option"     \<comment> \<open>\<open>*websocket.Dialer\<close>; \<open>None\<close> is nil\<close>
  URL :: string

record Pool =
  conns :: "nat list"        \<comment> \<open>\<open>[]*WsConn\<close>: addresses of the idle handles\<close>
  config :: Config
  activeConnections :: int32
  closeOnce :: bool          \<comment> \<open>\<open>sync.Once\<close>: has the body run\<close>
  closeChan :: bool          \<comment> \<open>has the channel been closed\<close>

record world =
  heap :: "WsConn list"
  net :: "bool list"
  dialled :: nat             \<comment> \<open>calls of \<open>Dial\<close> so far\<close>
  ticks :: nat               \<comment> \<open>readings of \<open>time.Now()\<close> so far\<close>

record env =
  Dial :: "string \<Rightarrow> nat \<Rightarrow> error option"
  Now :: "nat \<Rightarrow> Time"
  ws_Close :: "nat \<Rightarrow> error option"
  ws_WriteMessage :: "nat \<Rightarrow> string \<Rightarrow> error option"
  ws_WriteJSON :: "nat \<Rightarrow> string \<Rightarrow> error option"
  ws_ReadMessage :: "nat \<Rightarrow> error + string"
  ws_ReadJSON :: "nat \<Rightarrow> error + string"

definition world0 :: world where
  "world0 = \<lparr>heap = [], net = [], dialled = 0, ticks = 0\<rparr>"

text \<open>\<open>Time.Sub\<close>: the difference as a \<open>Duration\<close>, saturating at the ends of int64.\<close>

definition Sub :: "Time \<Rightarrow> Time \<Rightarrow> Duration" where
  "Sub t u =
     (if t - u > 2 ^ 63 - 1 then word_of_int (2 ^ 63 - 1)
      else if t - u < - (2 ^ 63) then word_of_int (- (2 ^ 63))
      else word_of_int (t - u))"

subsection \<open>The handle (conn.go)\<close>

definition SendMessage :: "env \<Rightarrow> nat \<Rightarrow> string \<Rightarrow> world \<Rightarrow> (error option \<times> world) outcome" where
  "SendMessage E w message W =
     (if w < length (heap W) then
        (case c (heap W ! w) of
           None \<Rightarrow> Returns (Some (ErrorString ''connection is nil''), W)
         | Some t \<Rightarrow>
             Returns (ws_WriteMessage E t message,
               W\<lparr>heap := (heap W)[w := (heap W ! w)\<lparr>lastUsedAt := Now E (ticks W)\<rparr>],
                 ticks := Suc (ticks W)\<rparr>))
      else Panic NilDereference)"

text \<open>\<open>Send\<close> is the name the same method has in the second copy of the file.\<close>

definition Send :: "env \<Rightarrow> nat \<Rightarrow> string \<Rightarrow> world \<Rightarrow> (error option \<times> world) outcome" where
  "Send E w message W =
     (if w < length (heap W) then
        (case c (heap W ! w) of
           None \<Rightarrow> Returns (Some (ErrorString ''connection is nil''), W)
         | Some t \<Rightarrow>
             Returns (ws_WriteMessage E t message,
               W\<lparr>heap := (heap W)[w := (heap W ! w)\<lparr>lastUsedAt := Now E (ticks W)\<rparr>],
                 ticks := Suc (ticks W)\<rparr>))
      else Panic NilDereference)"

definition SendJSON :: "env \<Rightarrow> nat \<Rightarrow> string \<Rightarrow> world \<Rightarrow> (error option \<times> world) outcome" where
  "SendJSON E w v W =
     (if w < length (heap W) then
        (case c (heap W ! w) of
           None \<Rightarrow> Returns (Some (ErrorString ''connection is nil''), W)
         | Some t \<Rightarrow>
             Returns (ws_WriteJSON E t v,
               W\<lparr>heap := (heap W)[w := (heap W ! w)\<lparr>lastUsedAt := Now E (ticks W)\<rparr>],
                 ticks := Suc (ticks W)\<rparr>))
      else Panic NilDereference)"

text \<open>
  \<open>ReadMessage\<close> and \<open>ReadJson\<close> call the transport without looking at \<open>w.c\<close>. On a nil
  \<open>*websocket.Conn\<close> the transport's read dereferences its receiver, which panics.
\<close>

definition ReadMessage :: "env \<Rightarrow> nat \<Rightarrow> world \<Rightarrow> ((error + string) \<times> world) outcome" where
  "ReadMessage E w W =
     (if w < length (heap W) then
        (case c (heap W ! w) of
           None \<Rightarrow> Panic NilDereference
         | Some t \<Rightarrow>
             (case ws_ReadMessage E t of
                Inl err \<Rightarrow> Returns (Inl err, W)
              | Inr data \<Rightarrow> Returns (Inr data, W)))
      else Panic NilDereference)"

definition ReadJson :: "env \<Rightarrow> nat \<Rightarrow> world \<Rightarrow> ((error + string) \<times> world) outcome" where
  "ReadJson E w W =
     (if w < length (heap W) then
        (case c (heap W ! w) of
           None \<Rightarrow> Panic NilDereference
         | Some t \<Rightarrow>
             (case ws_ReadJSON E t of
                Inl err \<Rightarrow> Returns (Inl err, W)
              | Inr v \<Rightarrow> Returns (Inr v, W)))
      else Panic NilDereference)"

definition WsConn_Close :: "env \<Rightarrow> nat \<Rightarrow> world \<Rightarrow> (error option \<times> world) outcome" where
  "WsConn_Close E w W =
     (if w < length (heap W) then
        (case c (heap W ! w) of
           None \<Rightarrow> Returns (Some (ErrorString ''connection is nil''), W)
         | Some t \<Rightarrow>
             Returns (ws_Close E t,
               W\<lparr>heap := (heap W)[w := (heap W ! w)\<lparr>c := None\<rparr>],
                 net := (net W)[t := False]\<rparr>))
      else Panic NilDereference)"

subsection \<open>The pool (pool.go)\<close>

definition newConnection :: "env \<Rightarrow> Pool \<Rightarrow> world \<Rightarrow> (error + nat) \<times> Pool \<times> world" where
  "newConnection E P W =
     (case Dial E (URL (config P)) (dialled W) of
        Some err \<Rightarrow> (Inl err, P, W\<lparr>dialled := Suc (dialled W)\<rparr>)
      | None \<Rightarrow>
          (Inr (length (heap W)),
           P\<lparr>activeConnections := activeConnections P + 1\<rparr>,
           W\<lparr>heap := heap W @
                [\<lparr>c = Some (length (net W)), p = None,
                  createdAt = Now E (ticks W), lastUsedAt = Now E (Suc (ticks W))\<rparr>],
             net := net W @ [True],
             dialled := Suc (dialled W),
             ticks := Suc (Suc (ticks W))\<rparr>))"

definition Acquire :: "env \<Rightarrow> Pool \<Rightarrow> world \<Rightarrow> (error + nat) \<times> Pool \<times> world" where
  "Acquire E P W =
     (if 0 < length (conns P) then
        (Inr (last (conns P)), P\<lparr>conns := butlast (conns P)\<rparr>, W)
      else if activeConnections P <s MaxConn (config P) then
        (case newConnection E P W of
           (Inl err, P', W') \<Rightarrow> (Inl err, P', W')
         | (Inr conn, P', W') \<Rightarrow>
             (Inr conn, P'\<lparr>activeConnections := activeConnections P' + 1\<rparr>, W'))
      else (Inl (ErrorString ''no available connections''), P, W))"

text \<open>
  \<open>maintainPoolSize\<close> is two loops. The first dials while \<open>int32(len(p.conns)) < MinConn\<close>
  and stops at the first failed dial; the second pops and closes handles from the tail while
  \<open>int32(len(p.conns)) > MaxConn\<close>. With a negative \<open>MaxConn\<close> the second loop reaches an
  empty slice and indexes it at \<open>-1\<close>.
\<close>

function maintain_fill :: "env \<Rightarrow> Pool \<Rightarrow> world \<Rightarrow> Pool \<times> world" where
  "maintain_fill E P W =
     (if of_nat (length (conns P)) <s MinConn (config P) then
        (case newConnection E P W of
           (Inl err, P', W') \<Rightarrow> (P', W')
         | (Inr conn, P', W') \<Rightarrow> maintain_fill E (P'\<lparr>conns := conns P' @ [conn]\<rparr>) W')
      else (P, W))"
  by pat_completeness auto
termination
proof (relation "measure (\<lambda>(E, P, W). unat (MinConn (config P) - of_nat (length (conns P))))",
    goal_cases)
  case 1
  show ?case by simp
next
  case (2 E P W x y conn P' W')
  then have nc: "newConnection E P W = (Inr conn, P', W')"
    by simp
  then have keep: "conns P' = conns P" "config P' = config P"
    by (auto simp: newConnection_def split: option.splits)
  define d where "d = MinConn (config P) - of_nat (length (conns P))"
  from 2(1) have "d \<noteq> 0"
    by (auto simp: d_def)
  then have pred: "unat (d - 1) < unat d"
    by (simp add: unat_minus_one unat_gt_0 word_neq_0_conv)
  have e: "MinConn (config P) - (1 + of_nat (length (conns P))) = d - 1"
    by (simp add: d_def)
  have "unat (MinConn (config P) - (1 + of_nat (length (conns P)))) < unat d"
    unfolding e by (rule pred)
  then have "unat (MinConn (config P) - (1 + of_nat (length (conns P))))
      < unat (MinConn (config P) - of_nat (length (conns P)))"
    unfolding d_def .
  with keep show ?case
    by simp
qed

function maintain_trim :: "env \<Rightarrow> Pool \<Rightarrow> world \<Rightarrow> (Pool \<times> world) outcome" where
  "maintain_trim E P W =
     (if MaxConn (config P) <s of_nat (length (conns P)) then
        (if conns P = [] then Panic IndexOutOfRange
         else
           (case WsConn_Close E (last (conns P)) W of
              Panic x \<Rightarrow> Panic x
            | Returns (err, W') \<Rightarrow> maintain_trim E (P\<lparr>conns := butlast (conns P)\<rparr>) W'))
      else Returns (P, W))"
  by pat_completeness auto
termination
  by (relation "measure (\<lambda>(E, P, W). length (conns P))") auto

definition maintainPoolSize :: "env \<Rightarrow> Pool \<Rightarrow> world \<Rightarrow> (Pool \<times> world) outcome" where
  "maintainPoolSize E P W = (case maintain_fill E P W of (P', W') \<Rightarrow> maintain_trim E P' W')"

definition Pool_release :: "env \<Rightarrow> nat \<Rightarrow> Pool \<Rightarrow> world \<Rightarrow> (Pool \<times> world) outcome" where
  "Pool_release E conn P W =
     (if of_nat (length (conns P)) <s MaxConn (config P) then
        maintainPoolSize E (P\<lparr>conns := conns P @ [conn]\<rparr>) W
      else
        (case WsConn_Close E conn W of
           Panic x \<Rightarrow> Panic x
         | Returns (err, W') \<Rightarrow> maintainPoolSize E P W'))"

text \<open>\<open>WsConn.Release\<close>: the handle method, which reaches \<open>Pool.release\<close> through \<open>w.p\<close>.\<close>

definition WsConn_Release :: "env \<Rightarrow> nat \<Rightarrow> Pool \<Rightarrow> world \<Rightarrow> (Pool \<times> world) outcome" where
  "WsConn_Release E w P W =
     (if w < length (heap W) then
        (if c (heap W ! w) = None \<or> p (heap W ! w) = None then Returns (P, W)
         else
           (case Pool_release E w P W of
              Panic x \<Rightarrow> Panic x
            | Returns (P', W') \<Rightarrow>
                Returns (P', W'\<lparr>heap := (heap W')[w := (heap W' ! w)\<lparr>c := None\<rparr>]\<rparr>)))
      else Panic NilDereference)"

fun Close_loop :: "env \<Rightarrow> nat list \<Rightarrow> world \<Rightarrow> world outcome" where
  "Close_loop E [] W = Returns W"
| "Close_loop E (conn # rest) W =
     (case WsConn_Close E conn W of
        Panic x \<Rightarrow> Panic x
      | Returns (err, W') \<Rightarrow> Close_loop E rest W')"

definition Pool_Close :: "env \<Rightarrow> Pool \<Rightarrow> world \<Rightarrow> (Pool \<times> world) outcome" where
  "Pool_Close E P W =
     (if closeOnce P then Returns (P, W)
      else
        (case Close_loop E (conns P) W of
           Panic x \<Rightarrow> Panic x
         | Returns W' \<Rightarrow> Returns (P\<lparr>closeOnce := True, closeChan := True, conns := []\<rparr>, W')))"

text \<open>
  \<open>isIdleOrExpired\<close> takes a \<open>*WsConn\<close>: \<open>deref\<close> reads the pointer, \<open>None\<close> for nil. The two
  conditions are \<open>&&\<close> chains, so \<open>conn\<close> is dereferenced only behind a positive threshold:
  with both thresholds off a nil pointer is not touched and the result is \<open>false\<close>.
\<close>

definition deref :: "world \<Rightarrow> nat \<Rightarrow> WsConn option" where
  "deref W a = (if a < length (heap W) then Some (heap W ! a) else None)"

definition isIdleOrExpired :: "Pool \<Rightarrow> WsConn option \<Rightarrow> Time \<Rightarrow> bool outcome" where
  "isIdleOrExpired P conn now =
     (case (if 0 <s MaxConnLifetime (config P) then
              (case conn of
                 None \<Rightarrow> Panic NilDereference
               | Some w \<Rightarrow> Returns (MaxConnLifetime (config P) <s Sub now (createdAt w)))
            else Returns False) of
        Panic x \<Rightarrow> Panic x
      | Returns too_old \<Rightarrow>
          if too_old then Returns True
          else
            (case (if 0 <s MaxConnIdleTime (config P) then
                     (case conn of
                        None \<Rightarrow> Panic NilDereference
                      | Some w \<Rightarrow> Returns (MaxConnIdleTime (config P) <s Sub now (lastUsedAt w)))
                   else Returns False) of
               Panic x \<Rightarrow> Panic x
             | Returns too_idle \<Rightarrow> if too_idle then Returns True else Returns False))"

text \<open>
  One tick of \<open>startHealthCheck\<close>. The loop over \<open>p.conns\<close> collects the handles it keeps
  in \<open>activeConnections\<close> (a local slice, here \<open>keep\<close>) and closes the others. The ticker
  comes from \<open>time.NewTicker\<close>, which panics when the period is not positive, so no tick
  happens with such a period. The tick does not look at \<open>closeChan\<close>: when the ticker and
  the closed channel are both ready the \<open>select\<close> may still take the tick.
\<close>

fun sweep_loop ::
  "env \<Rightarrow> Pool \<Rightarrow> Time \<Rightarrow> nat list \<Rightarrow> nat list \<Rightarrow> world \<Rightarrow> (nat list \<times> world) outcome" where
  "sweep_loop E P now [] keep W = Returns (keep, W)"
| "sweep_loop E P now (conn # rest) keep W =
     (case isIdleOrExpired P (deref W conn) now of
        Panic x \<Rightarrow> Panic x
      | Returns expired \<Rightarrow>
          if expired then
            (case WsConn_Close E conn W of
               Panic x \<Rightarrow> Panic x
             | Returns (err, W') \<Rightarrow> sweep_loop E P now rest keep W')
          else sweep_loop E P now rest (keep @ [conn]) W)"

definition healthCheckTick :: "env \<Rightarrow> Pool \<Rightarrow> world \<Rightarrow> (Pool \<times> world) outcome" where
  "healthCheckTick E P W =
     (if HealthCheckPeriod (config P) \<le>s 0 then Panic NonPositiveInterval
      else
        (case sweep_loop E P (Now E (ticks W)) (conns P) [] (W\<lparr>ticks := Suc (ticks W)\<rparr>) of
           Panic x \<Rightarrow> Panic x
         | Returns (keep, W') \<Rightarrow> maintainPoolSize E (P\<lparr>conns := keep\<rparr>) W'))"

function New_loop :: "env \<Rightarrow> int32 \<Rightarrow> Pool \<Rightarrow> world \<Rightarrow> (error + Pool) \<times> world" where
  "New_loop E i P W =
     (if i <s MinConn (config P) then
        (case newConnection E P W of
           (Inl err, P', W') \<Rightarrow> (Inl err, W')
         | (Inr conn, P', W') \<Rightarrow> New_loop E (i + 1) (P'\<lparr>conns := conns P' @ [conn]\<rparr>) W')
      else (Inr P, W))"
  by pat_completeness auto
termination
proof (relation "measure (\<lambda>(E, i, P, W). nat (sint (MinConn (config P)) - sint i))", goal_cases)
  case 1
  show ?case by simp
next
  case (2 E i P W x y conn P' W')
  then have nc: "newConnection E P W = (Inr conn, P', W')"
    by simp
  then have keep: "config P' = config P"
    by (auto simp: newConnection_def split: option.splits)
  from 2(1) have lt: "sint i < sint (MinConn (config P))"
    by (simp add: word_sless_alt)
  have "sint (MinConn (config P)) < 2 ^ 31"
    using sint_lt [of "MinConn (config P)"] by simp
  moreover have "- (2 ^ 31) \<le> sint i"
    using sint_ge [of i] by simp
  ultimately have "sint (i + 1) = sint i + 1"
    using lt by (simp add: sint_word_ariths signed_take_bit_int_eq_self)
  with lt keep show ?case
    by simp
qed

definition New :: "env \<Rightarrow> Config \<Rightarrow> world \<Rightarrow> ((error + Pool) \<times> world) outcome" where
  "New E cfg W =
     (if Dialer cfg = None \<or> URL cfg = [] then
        Returns (Inl (ErrorString ''dialer and URL must be provided''), W)
      else if MinConn cfg <s 0 then Panic MakesliceCapOutOfRange
      else
        Returns (New_loop E 0
          \<lparr>conns = [], config = cfg, activeConnections = 0,
           closeOnce = False, closeChan = False\<rparr> W))"

subsection \<open>Sequences of operations\<close>

datatype op =
    OpAcquire
  | OpRelease nat          \<comment> \<open>\<open>w.Release()\<close>\<close>
  | OpPoolRelease nat      \<comment> \<open>\<open>p.release(w)\<close>, called directly\<close>
  | OpTick                 \<comment> \<open>one tick of the health check\<close>
  | OpMaintain             \<comment> \<open>\<open>p.maintainPoolSize()\<close>\<close>
  | OpPoolClose            \<comment> \<open>\<open>p.Close()\<close>\<close>
  | OpConnClose nat        \<comment> \<open>\<open>w.Close()\<close>\<close>
  | OpSendMessage nat string
  | OpSendJSON nat string
  | OpReadMessage nat
  | OpReadJson nat

fun step :: "env \<Rightarrow> op \<Rightarrow> Pool \<times> world \<Rightarrow> (Pool \<times> world) outcome" where
  "step E OpAcquire (P, W) = (case Acquire E P W of (r, P', W') \<Rightarrow> Returns (P', W'))"
| "step E (OpRelease w) (P, W) = WsConn_Release E w P W"
| "step E (OpPoolRelease w) (P, W) = Pool_release E w P W"
| "step E OpTick (P, W) = healthCheckTick E P W"
| "step E OpMaintain (P, W) = maintainPoolSize E P W"
| "step E OpPoolClose (P, W) = Pool_Close E P W"
| "step E (OpConnClose w) (P, W) =
     (case WsConn_Close E w W of Panic x \<Rightarrow> Panic x | Returns (err, W') \<Rightarrow> Returns (P, W'))"
| "step E (OpSendMessage w m) (P, W) =
     (case SendMessage E w m W of Panic x \<Rightarrow> Panic x | Returns (err, W') \<Rightarrow> Returns (P, W'))"
| "step E (OpSendJSON w v) (P, W) =
     (case SendJSON E w v W of Panic x \<Rightarrow> Panic x | Returns (err, W') \<Rightarrow> Returns (P, W'))"
| "step E (OpReadMessage w) (P, W) =
     (case ReadMessage E w W of Panic x \<Rightarrow> Panic x | Returns (r, W') \<Rightarrow> Returns (P, W'))"
| "step E (OpReadJson w) (P, W) =
     (case ReadJson E w W of Panic x \<Rightarrow> Panic x | Returns (r, W') \<Rightarrow> Returns (P, W'))"

fun run :: "env \<Rightarrow> op list \<Rightarrow> Pool \<times> world \<Rightarrow> (Pool \<times> world) outcome" where
  "run E [] s = Returns s"
| "run E (x # xs) s = (case step E x s of Panic q \<Rightarrow> Panic q | Returns s' \<Rightarrow> run E xs s')"

text \<open>The transports that are open: idle, acquired or lost.\<close>

definition open_count :: "world \<Rightarrow> nat" where
  "open_count W = length (filter (\<lambda>b. b) (net W))"

subsection \<open>Scenarios\<close>

text \<open>
  An environment in which the n-th dial succeeds exactly when \<open>ok n\<close>, the clock shows
  the number of readings made so far, and the transport never reports an error.
\<close>

definition example_env :: "(nat \<Rightarrow> bool) \<Rightarrow> env" where
  "example_env ok =
     \<lparr>Dial = (\<lambda>u n. if ok n then None else Some (DialError n)),
      Now = (\<lambda>n. int n),
      ws_Close = (\<lambda>t. None),
      ws_WriteMessage = (\<lambda>t m. None),
      ws_WriteJSON = (\<lambda>t v. None),
      ws_ReadMessage = (\<lambda>t. Inr ''pong''),
      ws_ReadJSON = (\<lambda>t. Inr ''{}'')\<rparr>"

text \<open>The configuration of the package's example, with \<open>MinConn\<close> and \<open>MaxConn\<close> left open.\<close>

definition example_config :: "int32 \<Rightarrow> int32 \<Rightarrow> Config" where
  "example_config lo hi =
     \<lparr>MaxConnLifetime = 0, MaxConnIdleTime = 0, MaxConn = hi, MinConn = lo,
      HealthCheckPeriod = 60000000000, Dialer = Some 0, URL = ''ws://localhost:6060/channel''\<rparr>"

text \<open>
  \<open>New\<close>, then \<open>Acquire\<close>, \<open>Release\<close> of the handle and \<open>Acquire\<close> again: the handle of
  the first \<open>Acquire\<close>, the result of the second, and the idle handles left in between.
\<close>

definition acquire_release_acquire :: "env \<Rightarrow> Config \<Rightarrow> (nat \<times> nat list \<times> (error + nat)) option" where
  "acquire_release_acquire E cfg =
     (case New E cfg world0 of
        Returns (Inr P0, W0) \<Rightarrow>
          (case Acquire E P0 W0 of
             (Inr h, P1, W1) \<Rightarrow>
               (case WsConn_Release E h P1 W1 of
                  Returns (P2, W2) \<Rightarrow>
                    (case Acquire E P2 W2 of (r, P3, W3) \<Rightarrow> Some (h, conns P2, r))
                | Panic x \<Rightarrow> None)
           | (Inl err, P1, W1) \<Rightarrow> None)
      | _ \<Rightarrow> None)"

text \<open>\<open>New\<close> followed by a list of operations: the pool and the world at the end.\<close>

definition after_ops :: "env \<Rightarrow> Config \<Rightarrow> op list \<Rightarrow> (Pool \<times> world) option" where
  "after_ops E cfg ops =
     (case New E cfg world0 of
        Returns (Inr P0, W0) \<Rightarrow>
          (case run E ops (P0, W0) of Returns s \<Rightarrow> Some s | Panic x \<Rightarrow> None)
      | _ \<Rightarrow> None)"

text \<open>The world after \<open>New\<close> with one connection, \<open>Acquire\<close> and \<open>Close\<close> of the handle.\<close>

definition closed_handle_world :: world where
  "closed_handle_world =
     \<lparr>heap = [\<lparr>c = None, p = None, createdAt = 0, lastUsedAt = 1\<rparr>],
      net = [False], dialled = 1, ticks = 2\<rparr>"

text \<open>
  The expiry test as the specification words it: a threshold counts when it is nonzero.
\<close>

definition claimed_expired :: "Pool \<Rightarrow> WsConn \<Rightarrow> Time \<Rightarrow> bool" where
  "claimed_expired P conn now \<longleftrightarrow>
     (MaxConnLifetime (config P) \<noteq> 0
        \<and> MaxConnLifetime (config P) <s Sub now (createdAt conn))
     \<or> (MaxConnIdleTime (config P) \<noteq> 0
        \<and> MaxConnIdleTime (config P) <s Sub now (lastUsedAt conn))"

text \<open>
  Concrete states: the pool of \<open>New\<close> with \<open>MinConn = MaxConn = 1\<close> after \<open>Acquire\<close> and one
  tick (handle 0 acquired, handle 1 idle), the world after handle 0 is then closed, and the
  pool of \<open>New\<close> with \<open>MinConn = 2\<close> and an idle limit of 2 ns.
\<close>

definition full_pool :: Pool where
  "full_pool =
     \<lparr>conns = [1], config = example_config 1 1, activeConnections = 2,
      closeOnce = False, closeChan = False\<rparr>"

definition full_world :: world where
  "full_world =
     \<lparr>heap = [\<lparr>c = Some 0, p = None, createdAt = 0, lastUsedAt = 1\<rparr>,
              \<lparr>c = Some 1, p = None, createdAt = 3, lastUsedAt = 4\<rparr>],
      net = [True, True], dialled = 2, ticks = 5\<rparr>"

definition released_world :: world where
  "released_world =
     \<lparr>heap = [\<lparr>c = None, p = None, createdAt = 0, lastUsedAt = 1\<rparr>,
              \<lparr>c = Some 1, p = None, createdAt = 3, lastUsedAt = 4\<rparr>],
      net = [False, True], dialled = 2, ticks = 5\<rparr>"

definition idle_config :: Config where
  "idle_config = (example_config 2 4)\<lparr>MaxConnIdleTime := 2\<rparr>"

definition tick_pool :: Pool where
  "tick_pool =
     \<lparr>conns = [0, 1], config = idle_config, activeConnections = 2,
      closeOnce = False, closeChan = False\<rparr>"

definition tick_world :: world where
  "tick_world =
     \<lparr>heap = [\<lparr>c = Some 0, p = None, createdAt = 0, lastUsedAt = 1\<rparr>,
              \<lparr>c = Some 1, p = None, createdAt = 2, lastUsedAt = 3\<rparr>],
      net = [True, True], dialled = 2, ticks = 4\<rparr>"

text \<open>
  The transports dialled by the \<open>Acquire\<close> steps of a run. A transport is added to \<open>net\<close>
  exactly when a dial succeeds, so the growth of \<open>net\<close> over a step counts its successful
  calls of \<open>newConnection\<close>.
\<close>

fun acquire_dials :: "env \<Rightarrow> op list \<Rightarrow> Pool \<times> world \<Rightarrow> nat" where
  "acquire_dials E [] s = 0"
| "acquire_dials E (x # xs) s =
     (case step E x s of
        Panic q \<Rightarrow> 0
      | Returns s' \<Rightarrow>
          (if x = OpAcquire then length (net (snd s')) - length (net (snd s)) else 0)
          + acquire_dials E xs s')"

text \<open>
  \<open>grows n s s'\<close>: from \<open>s\<close> to \<open>s'\<close> the configuration is kept, a pool that was closed
  stays closed, transports were only added, and the counter went up by one for each
  transport added and by \<open>n\<close> more, where \<open>n\<close> is at most the number of transports added.
\<close>

definition grows :: "nat \<Rightarrow> Pool \<times> world \<Rightarrow> Pool \<times> world \<Rightarrow> bool" where
  "grows n s s' \<longleftrightarrow>
     config (fst s') = config (fst s)
     \<and> (closeOnce (fst s) \<longrightarrow> closeOnce (fst s'))
     \<and> length (net (snd s)) \<le> length (net (snd s'))
     \<and> n \<le> length (net (snd s')) - length (net (snd s))
     \<and> activeConnections (fst s') =
         activeConnections (fst s) + of_nat (length (net (snd s')) - length (net (snd s)) + n)"

text \<open>
  More concrete states: the pool and world that \<open>New\<close> returns for \<open>MinConn = MaxConn = 1\<close>,
  and a pool whose counter stands at the largest int32.
\<close>

definition one_pool :: Pool where
  "one_pool =
     \<lparr>conns = [0], config = example_config 1 1, activeConnections = 1,
      closeOnce = False, closeChan = False\<rparr>"

definition one_world :: world where
  "one_world =
     \<lparr>heap = [\<lparr>c = Some 0, p = None, createdAt = 0, lastUsedAt = 1\<rparr>],
      net = [True], dialled = 1, ticks = 2\<rparr>"

definition wrap_pool :: Pool where
  "wrap_pool =
     \<lparr>conns = [], config = example_config 1 4, activeConnections = 2147483647,
      closeOnce = False, closeChan = False\<rparr>"

text \<open>
  \<open>pool_inv H xs W\<close>: the store is well formed for the idle list \<open>xs\<close>, and the handles in
  \<open>H\<close> are out of the pool's reach. No handle has an owning pool; a handle's transport has
  been dialled; idle handles are allocated; and each handle of \<open>H\<close> is allocated, not idle,
  and the only handle of its transport, which is open.
\<close>

definition pool_inv :: "nat set \<Rightarrow> nat list \<Rightarrow> world \<Rightarrow> bool" where
  "pool_inv H xs W \<longleftrightarrow>
     (\<forall>a<length (heap W). p (heap W ! a) = None)
     \<and> (\<forall>a<length (heap W). \<forall>t. c (heap W ! a) = Some t \<longrightarrow> t < length (net W))
     \<and> (\<forall>a\<in>set xs. a < length (heap W))
     \<and> (\<forall>h\<in>H. h < length (heap W) \<and> h \<notin> set xs
          \<and> (\<exists>t. c (heap W ! h) = Some t \<and> net W ! t
                \<and> (\<forall>a<length (heap W). a \<noteq> h \<longrightarrow> c (heap W ! a) \<noteq> Some t)))"

text \<open>
  The operations that leave the handles of \<open>H\<close> to their holder: every operation but a
  direct call of the unexported \<open>p.release(w)\<close>, whose only caller in the package is
  \<open>Release\<close>, and \<open>Close\<close> on a handle of \<open>H\<close>. With \<open>H\<close> empty these are the operations
  a user of the package can cause.
\<close>

fun pool_op :: "nat set \<Rightarrow> op \<Rightarrow> bool" where
  "pool_op H (OpPoolRelease w) = False"
| "pool_op H (OpConnClose w) = (w \<notin> H)"
| "pool_op H x = True"

text \<open>The calls a user makes: the exported methods of the pool and of its handles.\<close>

fun caller_op :: "op \<Rightarrow> bool" where
  "caller_op OpAcquire = True"
| "caller_op (OpRelease w) = True"
| "caller_op OpPoolClose = True"
| "caller_op (OpConnClose w) = True"
| "caller_op (OpSendMessage w m) = True"
| "caller_op (OpSendJSON w v) = True"
| "caller_op (OpReadMessage w) = True"
| "caller_op (OpReadJson w) = True"
| "caller_op x = False"

text \<open>
  States of a pool with \<open>MinConn = 1\<close> and \<open>MaxConn = 4\<close>: as \<open>New\<close> returns it, after
  \<open>Close\<close>, and the worlds after one and two later \<open>Acquire\<close>s and after further operations.
\<close>

definition start_pool :: Pool where
  "start_pool =
     \<lparr>conns = [0], config = example_config 1 4, activeConnections = 1,
      closeOnce = False, closeChan = False\<rparr>"

definition shut_pool :: Pool where
  "shut_pool = start_pool\<lparr>closeOnce := True, closeChan := True, conns := []\<rparr>"

text \<open>The closed pool after a tick of the health check has refilled it with handle 1.\<close>

definition refilled_pool :: Pool where
  "refilled_pool = shut_pool\<lparr>conns := [1], activeConnections := 2\<rparr>"

definition late_world :: world where
  "late_world =
     \<lparr>heap = [\<lparr>c = None, p = None, createdAt = 0, lastUsedAt = 1\<rparr>,
              \<lparr>c = Some 1, p = None, createdAt = 2, lastUsedAt = 3\<rparr>],
      net = [False, True], dialled = 2, ticks = 4\<rparr>"

definition later_world :: world where
  "later_world =
     \<lparr>heap = [\<lparr>c = None, p = None, createdAt = 0, lastUsedAt = 1\<rparr>,
              \<lparr>c = Some 1, p = None, createdAt = 2, lastUsedAt = 3\<rparr>,
              \<lparr>c = Some 2, p = None, createdAt = 4, lastUsedAt = 5\<rparr>],
      net = [False, True, True], dialled = 3, ticks = 6\<rparr>"

definition last_world :: world where
  "last_world =
     \<lparr>heap = [\<lparr>c = None, p = None, createdAt = 0, lastUsedAt = 1\<rparr>,
              \<lparr>c = Some 1, p = None, createdAt = 2, lastUsedAt = 3\<rparr>,
              \<lparr>c = Some 2, p = None, createdAt = 4, lastUsedAt = 5\<rparr>,
              \<lparr>c = Some 3, p = None, createdAt = 7, lastUsedAt = 8\<rparr>],
      net = [False, True, True, True], dialled = 4, ticks = 9\<rparr>"

text \<open>A configuration whose \<open>MaxConn\<close> is the largest int32.\<close>

definition big_config :: Config where
  "big_config = example_config 0 2147483647"

section \<open>Helper lemmas\<close>

lemma c_update_None:
  "c (r::WsConn) = None \<Longrightarrow> r\<lparr>c := None\<rparr> = r"
  by (cases r) simp

lemma WsConn_Close_Returns:
  assumes "WsConn_Close E w W = Returns (err, W')"
  shows "w < length (heap W)"
    and "heap W' = (heap W)[w := (heap W ! w)\<lparr>c := None\<rparr>]"
    and "net W' = (case c (heap W ! w) of None \<Rightarrow> net W | Some t \<Rightarrow> (net W)[t := False])"
    and "dialled W' = dialled W" and "ticks W' = ticks W"
  using assms
  by (auto simp: WsConn_Close_def c_update_None split: if_splits option.splits)

lemma isIdleOrExpired_Some:
  "isIdleOrExpired P (Some w) now =
     Returns ((0 <s MaxConnLifetime (config P)
                 \<and> MaxConnLifetime (config P) <s Sub now (createdAt w))
              \<or> (0 <s MaxConnIdleTime (config P)
                 \<and> MaxConnIdleTime (config P) <s Sub now (lastUsedAt w)))"
  by (simp add: isIdleOrExpired_def)

lemma isIdleOrExpired_None:
  "isIdleOrExpired P None now =
     (if 0 <s MaxConnLifetime (config P) \<or> 0 <s MaxConnIdleTime (config P)
      then Panic NilDereference else Returns False)"
  by (simp add: isIdleOrExpired_def)

lemma expired_valid:
  "isIdleOrExpired P (deref W a) now = Returns True \<Longrightarrow> a < length (heap W)"
  by (auto simp: deref_def isIdleOrExpired_None split: if_splits)

lemma isIdleOrExpired_after_close:
  assumes "heap W1 = (heap W)[x := (heap W ! x)\<lparr>c := None\<rparr>]"
  shows "isIdleOrExpired P (deref W1 a) now = isIdleOrExpired P (deref W a) now"
proof (cases "a < length (heap W)")
  case False
  with assms show ?thesis
    by (simp add: deref_def)
next
  case True
  with assms have "deref W1 a = Some (if a = x then (heap W ! a)\<lparr>c := None\<rparr> else heap W ! a)"
    by (simp add: deref_def nth_list_update)
  with True show ?thesis
    by (simp add: deref_def isIdleOrExpired_Some)
qed

lemma sweep_loop_Returns:
  "sweep_loop E P now xs keep W = Returns (keep', W') \<Longrightarrow>
     keep' = keep @ filter (\<lambda>a. isIdleOrExpired P (deref W a) now \<noteq> Returns True) xs
     \<and> length (heap W') = length (heap W)
     \<and> ticks W' = ticks W \<and> dialled W' = dialled W \<and> length (net W') = length (net W)
     \<and> (\<forall>a\<in>set xs. isIdleOrExpired P (deref W a) now = Returns True
           \<longrightarrow> heap W' ! a = (heap W ! a)\<lparr>c := None\<rparr>)
     \<and> (\<forall>a. \<not> (a \<in> set xs \<and> isIdleOrExpired P (deref W a) now = Returns True)
           \<longrightarrow> heap W' ! a = heap W ! a)
     \<and> (\<forall>t<length (net W).
           net W' ! t \<longleftrightarrow>
             net W ! t
             \<and> \<not> (\<exists>a\<in>set xs. isIdleOrExpired P (deref W a) now = Returns True
                     \<and> c (heap W ! a) = Some t))"
proof (induction xs arbitrary: keep W)
  case Nil
  then show ?case by simp
next
  case (Cons x xs)
  from Cons.prems obtain b where cls: "isIdleOrExpired P (deref W x) now = Returns b"
    by (cases "isIdleOrExpired P (deref W x) now") simp_all
  show ?case
  proof (cases b)
    case False
    with Cons.prems cls have "sweep_loop E P now xs (keep @ [x]) W = Returns (keep', W')"
      by simp
    from Cons.IH [OF this] False cls show ?thesis
      by auto
  next
    case True
    with cls have ex: "isIdleOrExpired P (deref W x) now = Returns True"
      by simp
    with Cons.prems obtain err W1 where
      cl: "WsConn_Close E x W = Returns (err, W1)"
      and rest: "sweep_loop E P now xs keep W1 = Returns (keep', W')"
      by (auto split: outcome.splits)
    note c1 = WsConn_Close_Returns [OF cl]
    have same: "\<And>a. isIdleOrExpired P (deref W1 a) now = isIdleOrExpired P (deref W a) now"
      by (rule isIdleOrExpired_after_close [OF c1(2)])
    have len1: "length (heap W1) = length (heap W)"
      by (simp add: c1(2))
    have netlen: "length (net W1) = length (net W)"
      by (simp add: c1(3) split: option.splits)
    have at_x: "heap W1 ! x = (heap W ! x)\<lparr>c := None\<rparr>"
      using c1(1) by (simp add: c1(2))
    have other1: "\<And>a. a \<noteq> x \<Longrightarrow> heap W1 ! a = heap W ! a"
      by (simp add: c1(2))
    have net1: "net W1 ! t \<longleftrightarrow> net W ! t \<and> c (heap W ! x) \<noteq> Some t"
      if t: "t < length (net W)" for t
    proof (cases "c (heap W ! x)")
      case None
      then show ?thesis by (simp add: c1(3))
    next
      case (Some u)
      show ?thesis
      proof (cases "u < length (net W)")
        case True
        with Some t show ?thesis
          by (auto simp: c1(3) nth_list_update)
      next
        case False
        with Some t show ?thesis
          by (auto simp: c1(3) list_update_beyond)
      qed
    qed
    have c1x: "c (heap W1 ! a) = Some t \<longleftrightarrow> a \<noteq> x \<and> c (heap W ! a) = Some t" for a t
      by (cases "a = x") (simp_all add: at_x other1)
    note ih = Cons.IH [OF rest, unfolded same len1 netlen]
    have keep': "keep' = keep @ filter (\<lambda>a. isIdleOrExpired P (deref W a) now \<noteq> Returns True) (x # xs)"
      using ih ex by simp
    have heap_x: "heap W' ! x = (heap W ! x)\<lparr>c := None\<rparr>"
    proof (cases "x \<in> set xs")
      case True
      with ih ex have "heap W' ! x = (heap W1 ! x)\<lparr>c := None\<rparr>" by blast
      then show ?thesis by (simp add: at_x)
    next
      case False
      with ih have "heap W' ! x = heap W1 ! x" by blast
      then show ?thesis by (simp add: at_x)
    qed
    have closed: "\<forall>a\<in>set (x # xs). isIdleOrExpired P (deref W a) now = Returns True
           \<longrightarrow> heap W' ! a = (heap W ! a)\<lparr>c := None\<rparr>"
    proof (intro ballI impI)
      fix a assume a: "a \<in> set (x # xs)" "isIdleOrExpired P (deref W a) now = Returns True"
      show "heap W' ! a = (heap W ! a)\<lparr>c := None\<rparr>"
      proof (cases "a = x")
        case True
        with heap_x show ?thesis by simp
      next
        case False
        with a have "a \<in> set xs" by simp
        with ih a(2) have "heap W' ! a = (heap W1 ! a)\<lparr>c := None\<rparr>" by blast
        with False show ?thesis by (simp add: other1)
      qed
    qed
    have others: "\<forall>a. \<not> (a \<in> set (x # xs) \<and> isIdleOrExpired P (deref W a) now = Returns True)
        \<longrightarrow> heap W' ! a = heap W ! a"
    proof (intro allI impI)
      fix a assume a: "\<not> (a \<in> set (x # xs) \<and> isIdleOrExpired P (deref W a) now = Returns True)"
      with ex have ne: "a \<noteq> x" by auto
      from a have "\<not> (a \<in> set xs \<and> isIdleOrExpired P (deref W a) now = Returns True)" by auto
      with ih have "heap W' ! a = heap W1 ! a" by blast
      with ne show "heap W' ! a = heap W ! a" by (simp add: other1)
    qed
    have nets: "\<forall>t<length (net W).
           net W' ! t \<longleftrightarrow>
             net W ! t
             \<and> \<not> (\<exists>a\<in>set (x # xs). isIdleOrExpired P (deref W a) now = Returns True
                     \<and> c (heap W ! a) = Some t)"
    proof (intro allI impI)
      fix t assume t: "t < length (net W)"
      with ih have "net W' ! t \<longleftrightarrow>
             net W1 ! t
             \<and> \<not> (\<exists>a\<in>set xs. isIdleOrExpired P (deref W a) now = Returns True
                     \<and> c (heap W1 ! a) = Some t)"
        by blast
      then show "net W' ! t \<longleftrightarrow>
             net W ! t
             \<and> \<not> (\<exists>a\<in>set (x # xs). isIdleOrExpired P (deref W a) now = Returns True
                     \<and> c (heap W ! a) = Some t)"
        using ex by (auto simp: net1 [OF t] c1x)
    qed
    from keep' closed others nets ih c1(4,5) show ?thesis
      by simp
  qed
qed

lemma grows_refl: "grows 0 s s"
  by (simp add: grows_def)

lemma grows_same:
  "config P' = config P \<Longrightarrow> closeOnce P' = closeOnce P
   \<Longrightarrow> activeConnections P' = activeConnections P
   \<Longrightarrow> length (net W') = length (net W) \<Longrightarrow> grows 0 (P, W) (P', W')"
  by (simp add: grows_def)

lemma grows_trans:
  assumes "grows n s s'" and "grows k s' s''"
  shows "grows (n + k) s s''"
proof -
  let ?a = "length (net (snd s))" and ?b = "length (net (snd s'))" and ?c = "length (net (snd s''))"
  from assms have le: "?a \<le> ?b" "?b \<le> ?c" and n: "n \<le> ?b - ?a" and k: "k \<le> ?c - ?b"
    and cfg: "config (fst s'') = config (fst s)"
    and once: "closeOnce (fst s) \<longrightarrow> closeOnce (fst s'')"
    and a1: "activeConnections (fst s') = activeConnections (fst s) + of_nat (?b - ?a + n)"
    and a2: "activeConnections (fst s'') = activeConnections (fst s') + of_nat (?c - ?b + k)"
    by (auto simp: grows_def)
  from le have "(?b - ?a + n) + (?c - ?b + k) = ?c - ?a + (n + k)"
    by arith
  with a1 a2 have "activeConnections (fst s'') = activeConnections (fst s) + of_nat (?c - ?a + (n + k))"
    by (metis (no_types, lifting) add.assoc of_nat_add)
  moreover from le n k have "n + k \<le> ?c - ?a"
    by arith
  ultimately show ?thesis
    using le cfg once unfolding grows_def by simp
qed

lemma grows_trans0:
  "grows 0 s s' \<Longrightarrow> grows 0 s' s'' \<Longrightarrow> grows 0 s s''"
  using grows_trans [of 0 s s' 0 s''] by simp

lemma newConnection_grows:
  "newConnection E P W = (r, P', W') \<Longrightarrow> grows 0 (P, W) (P', W')"
  unfolding grows_def
  by (auto simp: newConnection_def split: option.splits)

lemma maintain_fill_grows:
  "maintain_fill E P W = (P', W') \<Longrightarrow> grows 0 (P, W) (P', W')"
proof (induction E P W arbitrary: P' W' rule: maintain_fill.induct)
  case (1 E P W)
  show ?case
  proof (cases "of_nat (length (conns P)) <s MinConn (config P)")
    case False
    with "1.prems" show ?thesis
      by (simp add: grows_refl)
  next
    case True
    obtain r P1 W1 where nc: "newConnection E P W = (r, P1, W1)"
      by (cases "newConnection E P W") auto
    note g1 = newConnection_grows [OF nc]
    show ?thesis
    proof (cases r)
      case (Inl err)
      with True nc "1.prems" have "P' = P1" "W' = W1"
        by (simp_all add: maintain_fill.simps [of E P W])
      with g1 show ?thesis by simp
    next
      case (Inr conn)
      with True nc "1.prems"
      have rec: "maintain_fill E (P1\<lparr>conns := conns P1 @ [conn]\<rparr>) W1 = (P', W')"
        by (simp add: maintain_fill.simps [of E P W])
      from "1.IH" [OF True nc [symmetric, unfolded Inr] refl refl rec]
      have "grows 0 (P1\<lparr>conns := conns P1 @ [conn]\<rparr>, W1) (P', W')" .
      then have "grows 0 (P1, W1) (P', W')"
        by (simp add: grows_def)
      with g1 show ?thesis
        by (rule grows_trans0)
    qed
  qed
qed

lemma WsConn_Close_net:
  "WsConn_Close E w W = Returns (err, W') \<Longrightarrow> length (net W') = length (net W)"
  by (auto simp: WsConn_Close_def split: if_splits option.splits)

lemma maintain_trim_grows:
  "maintain_trim E P W = Returns (P', W') \<Longrightarrow> grows 0 (P, W) (P', W')"
proof (induction E P W arbitrary: P' W' rule: maintain_trim.induct)
  case (1 E P W)
  show ?case
  proof (cases "MaxConn (config P) <s of_nat (length (conns P))")
    case False
    with "1.prems" show ?thesis
      by (simp add: grows_refl)
  next
    case True
    with "1.prems" have ne: "conns P \<noteq> []"
      by (auto simp: maintain_trim.simps [of E P W] split: if_splits)
    with True "1.prems" obtain err W1 where
      cl: "WsConn_Close E (last (conns P)) W = Returns (err, W1)"
      and rec: "maintain_trim E (P\<lparr>conns := butlast (conns P)\<rparr>) W1 = Returns (P', W')"
      by (auto simp: maintain_trim.simps [of E P W] split: outcome.splits)
    from "1.IH" [OF True ne cl refl rec]
    have "grows 0 (P\<lparr>conns := butlast (conns P)\<rparr>, W1) (P', W')" .
    with WsConn_Close_net [OF cl] show ?thesis
      by (simp add: grows_def)
  qed
qed

lemma maintainPoolSize_grows:
  "maintainPoolSize E P W = Returns (P', W') \<Longrightarrow> grows 0 (P, W) (P', W')"
proof -
  assume a: "maintainPoolSize E P W = Returns (P', W')"
  obtain P1 W1 where f: "maintain_fill E P W = (P1, W1)"
    by (cases "maintain_fill E P W") auto
  with a have "maintain_trim E P1 W1 = Returns (P', W')"
    by (simp add: maintainPoolSize_def)
  from grows_trans0 [OF maintain_fill_grows [OF f] maintain_trim_grows [OF this]]
  show ?thesis .
qed

lemma Pool_release_grows:
  "Pool_release E w P W = Returns (P', W') \<Longrightarrow> grows 0 (P, W) (P', W')"
proof -
  assume a: "Pool_release E w P W = Returns (P', W')"
  show ?thesis
  proof (cases "of_nat (length (conns P)) <s MaxConn (config P)")
    case True
    with a have "maintainPoolSize E (P\<lparr>conns := conns P @ [w]\<rparr>) W = Returns (P', W')"
      by (simp add: Pool_release_def)
    from maintainPoolSize_grows [OF this] show ?thesis
      by (simp add: grows_def)
  next
    case False
    with a obtain err W1 where cl: "WsConn_Close E w W = Returns (err, W1)"
      and m: "maintainPoolSize E P W1 = Returns (P', W')"
      by (auto simp: Pool_release_def split: outcome.splits)
    from maintainPoolSize_grows [OF m] WsConn_Close_net [OF cl] show ?thesis
      by (simp add: grows_def)
  qed
qed

lemma WsConn_Release_grows:
  "WsConn_Release E w P W = Returns (P', W') \<Longrightarrow> grows 0 (P, W) (P', W')"
proof -
  assume a: "WsConn_Release E w P W = Returns (P', W')"
  show ?thesis
  proof (cases "c (heap W ! w) = None \<or> p (heap W ! w) = None")
    case True
    with a show ?thesis
      by (auto simp: WsConn_Release_def grows_refl split: if_splits)
  next
    case False
    with a obtain W1 where r: "Pool_release E w P W = Returns (P', W1)"
      and w: "W' = W1\<lparr>heap := (heap W1)[w := (heap W1 ! w)\<lparr>c := None\<rparr>]\<rparr>"
      by (auto simp: WsConn_Release_def split: if_splits outcome.splits)
    from Pool_release_grows [OF r] show ?thesis
      by (simp add: grows_def w)
  qed
qed

lemma Close_loop_net:
  "Close_loop E xs W = Returns W' \<Longrightarrow> length (net W') = length (net W)"
proof (induction xs arbitrary: W)
  case Nil
  then show ?case by simp
next
  case (Cons x xs)
  then obtain err W1 where cl: "WsConn_Close E x W = Returns (err, W1)"
    and rest: "Close_loop E xs W1 = Returns W'"
    by (auto split: outcome.splits)
  from Cons.IH [OF rest] WsConn_Close_net [OF cl] show ?case
    by simp
qed

lemma Pool_Close_grows:
  "Pool_Close E P W = Returns (P', W') \<Longrightarrow> grows 0 (P, W) (P', W')"
  by (auto simp: Pool_Close_def grows_def dest: Close_loop_net split: if_splits outcome.splits)

lemma healthCheckTick_grows:
  "healthCheckTick E P W = Returns (P', W') \<Longrightarrow> grows 0 (P, W) (P', W')"
proof -
  assume a: "healthCheckTick E P W = Returns (P', W')"
  then obtain keep W1 where
    sw: "sweep_loop E P (Now E (ticks W)) (conns P) [] (W\<lparr>ticks := Suc (ticks W)\<rparr>)
           = Returns (keep, W1)"
    and m: "maintainPoolSize E (P\<lparr>conns := keep\<rparr>) W1 = Returns (P', W')"
    by (auto simp: healthCheckTick_def split: if_splits outcome.splits)
  from sweep_loop_Returns [OF sw] have "length (net W1) = length (net W)"
    by simp
  with maintainPoolSize_grows [OF m] show ?thesis
    by (simp add: grows_def)
qed

lemma Acquire_grows:
  "Acquire E P W = (r, P', W')
   \<Longrightarrow> grows (length (net W') - length (net W)) (P, W) (P', W')"
  unfolding grows_def
  by (auto simp: Acquire_def newConnection_def split: if_splits option.splits)

lemma step_grows:
  "step E x s = Returns s'
   \<Longrightarrow> grows (if x = OpAcquire then length (net (snd s')) - length (net (snd s)) else 0) s s'"
proof (cases s; cases s'; cases x)
qed (auto simp: grows_same dest: Acquire_grows WsConn_Release_grows Pool_release_grows
      healthCheckTick_grows maintainPoolSize_grows Pool_Close_grows WsConn_Close_net
      simp: SendMessage_def SendJSON_def ReadMessage_def ReadJson_def
      split: prod.splits outcome.splits if_splits option.splits sum.splits)

lemma run_grows:
  "run E ops s = Returns s' \<Longrightarrow> grows (acquire_dials E ops s) s s'"
proof (induction ops arbitrary: s)
  case Nil
  then show ?case by (simp add: grows_refl)
next
  case (Cons x xs)
  then obtain s1 where st: "step E x s = Returns s1" and rest: "run E xs s1 = Returns s'"
    by (auto split: outcome.splits)
  from grows_trans [OF step_grows [OF st] Cons.IH [OF rest]] st show ?case
    by simp
qed

lemma sint_add_of_nat:
  fixes a :: int32
  assumes "sint a + int k < 2 ^ 31"
  shows "sint (a + of_nat k) = sint a + int k"
proof -
  have "a + of_nat k = word_of_int (sint a + int k)"
    by simp
  then have "sint (a + of_nat k) = signed_take_bit 31 (sint a + int k)"
    by (simp only: sint_sbintrunc') simp
  moreover have "- (2 ^ 31) \<le> sint a"
    using sint_ge [of a] by simp
  ultimately show ?thesis
    using assms by (simp add: signed_take_bit_int_eq_self)
qed

lemma pool_inv_subset:
  "pool_inv H xs W \<Longrightarrow> set ys \<subseteq> set xs \<Longrightarrow> pool_inv H ys W"
  unfolding pool_inv_def by blast

lemma pool_inv_ticks:
  "pool_inv H xs (W\<lparr>ticks := n\<rparr>) = pool_inv H xs W"
  by (simp add: pool_inv_def)

lemma pool_inv_close:
  assumes inv: "pool_inv H xs W" and cl: "WsConn_Close E w W = Returns (err, W')" and w: "w \<notin> H"
  shows "pool_inv H xs W'"
proof -
  note c1 = WsConn_Close_Returns [OF cl]
  have len: "length (heap W') = length (heap W)" "length (net W') = length (net W)"
    by (simp_all add: c1(2,3) split: option.splits)
  have hp: "\<And>a. a < length (heap W) \<Longrightarrow> p (heap W' ! a) = p (heap W ! a)"
    using c1(1) by (simp add: c1(2) nth_list_update)
  have hc: "\<And>a. a < length (heap W) \<Longrightarrow> c (heap W' ! a) = (if a = w then None else c (heap W ! a))"
    using c1(1) by (simp add: c1(2) nth_list_update)
  have nt: "\<And>t. t < length (net W) \<Longrightarrow> c (heap W ! w) \<noteq> Some t \<Longrightarrow> net W' ! t = net W ! t"
    by (auto simp: c1(3) nth_list_update split: option.splits)
  show ?thesis
    unfolding pool_inv_def len
  proof (intro conjI allI impI ballI)
    fix a assume "a < length (heap W)"
    with inv show "p (heap W' ! a) = None"
      by (simp add: hp pool_inv_def)
  next
    fix a t assume "a < length (heap W)" "c (heap W' ! a) = Some t"
    with inv show "t < length (net W)"
      by (auto simp: hc pool_inv_def split: if_splits)
  next
    fix a assume "a \<in> set xs"
    with inv show "a < length (heap W)"
      by (simp add: pool_inv_def)
  next
    fix h assume h: "h \<in> H"
    with inv show "h < length (heap W)"
      by (simp add: pool_inv_def)
  next
    fix h assume h: "h \<in> H"
    with inv show "h \<notin> set xs"
      by (simp add: pool_inv_def)
  next
    fix h assume h: "h \<in> H"
    with inv obtain t where hv: "h < length (heap W)" and t: "c (heap W ! h) = Some t" "net W ! t"
      and uniq: "\<forall>a<length (heap W). a \<noteq> h \<longrightarrow> c (heap W ! a) \<noteq> Some t"
      unfolding pool_inv_def by blast
    from h w have ne: "h \<noteq> w" by blast
    from inv hv t(1) have tl: "t < length (net W)"
      unfolding pool_inv_def by blast
    from uniq c1(1) ne have "c (heap W ! w) \<noteq> Some t"
      by (metis)
    with nt [OF tl] t(2) have "net W' ! t" by simp
    moreover from hv ne t(1) have "c (heap W' ! h) = Some t"
      by (simp add: hc)
    moreover have "\<forall>a<length (heap W). a \<noteq> h \<longrightarrow> c (heap W' ! a) \<noteq> Some t"
      using uniq by (simp add: hc)
    ultimately show "\<exists>t. c (heap W' ! h) = Some t \<and> net W' ! t
        \<and> (\<forall>a<length (heap W). a \<noteq> h \<longrightarrow> c (heap W' ! a) \<noteq> Some t)"
      by blast
  qed
qed

lemma pool_inv_alloc:
  fixes t1 t2 :: Time and d n :: nat
  assumes inv: "pool_inv H xs W"
  defines "W' \<equiv> W\<lparr>heap := heap W @ [\<lparr>c = Some (length (net W)), p = None, createdAt = t1, lastUsedAt = t2\<rparr>],
                    net := net W @ [True], dialled := d, ticks := n\<rparr>"
  shows "pool_inv H xs W'"
    and "pool_inv H (xs @ [length (heap W)]) W'"
    and "pool_inv (insert (length (heap W)) H) xs W'"
proof -
  have old: "\<And>a. a < length (heap W) \<Longrightarrow> heap W' ! a = heap W ! a"
    by (simp add: W'_def nth_append)
  have new: "heap W' ! length (heap W)
      = \<lparr>c = Some (length (net W)), p = None, createdAt = t1, lastUsedAt = t2\<rparr>"
    by (simp add: W'_def)
  have len: "length (heap W') = Suc (length (heap W))" "length (net W') = Suc (length (net W))"
    by (simp_all add: W'_def)
  have oldnet: "\<And>t. t < length (net W) \<Longrightarrow> net W' ! t = net W ! t"
    by (simp add: W'_def nth_append)
  have newnet: "net W' ! length (net W)"
    by (simp add: W'_def)
  from inv have i1: "\<And>a. a < length (heap W) \<Longrightarrow> p (heap W ! a) = None"
    and i2: "\<And>a t. a < length (heap W) \<Longrightarrow> c (heap W ! a) = Some t \<Longrightarrow> t < length (net W)"
    and i3: "\<And>a. a \<in> set xs \<Longrightarrow> a < length (heap W)"
    and i4: "\<And>h. h \<in> H \<Longrightarrow> h < length (heap W) \<and> h \<notin> set xs
          \<and> (\<exists>t. c (heap W ! h) = Some t \<and> net W ! t
                \<and> (\<forall>a<length (heap W). a \<noteq> h \<longrightarrow> c (heap W ! a) \<noteq> Some t))"
    unfolding pool_inv_def by blast+
  have p': "\<forall>a<length (heap W'). p (heap W' ! a) = None"
    using i1 by (auto simp: len less_Suc_eq old new)
  have c': "\<forall>a<length (heap W'). \<forall>t. c (heap W' ! a) = Some t \<longrightarrow> t < length (net W')"
    using i2 by (auto simp: len less_Suc_eq old new)
  have x': "\<forall>a\<in>set xs. a < length (heap W')"
    using i3 by (auto simp: len less_Suc_eq)
  have own: "h < length (heap W') \<and> h \<notin> set xs
          \<and> (\<exists>t. c (heap W' ! h) = Some t \<and> net W' ! t
                \<and> (\<forall>a<length (heap W'). a \<noteq> h \<longrightarrow> c (heap W' ! a) \<noteq> Some t))"
    if "h \<in> H" for h
  proof -
    from i4 [OF that] obtain t where hv: "h < length (heap W)" "h \<notin> set xs"
      and t: "c (heap W ! h) = Some t" "net W ! t"
      and uniq: "\<forall>a<length (heap W). a \<noteq> h \<longrightarrow> c (heap W ! a) \<noteq> Some t"
      by blast
    from i2 [OF hv(1) t(1)] have tl: "t < length (net W)" .
    have "\<forall>a<length (heap W'). a \<noteq> h \<longrightarrow> c (heap W' ! a) \<noteq> Some t"
      using uniq tl by (auto simp: len less_Suc_eq old new)
    with hv t tl show ?thesis
      by (auto simp: len old oldnet)
  qed
  have fresh: "length (heap W) \<notin> set xs"
    using i3 by blast
  have ownnew: "\<forall>a<length (heap W'). a \<noteq> length (heap W) \<longrightarrow> c (heap W' ! a) \<noteq> Some (length (net W))"
    using i2 by (auto simp: len less_Suc_eq old)
  show "pool_inv H xs W'"
    unfolding pool_inv_def using p' c' x' own by blast
  have notH: "length (heap W) \<notin> H"
    using i4 by blast
  show "pool_inv H (xs @ [length (heap W)]) W'"
    unfolding pool_inv_def using p' c' x' own notH by (auto simp: len)
  show "pool_inv (insert (length (heap W)) H) xs W'"
    unfolding pool_inv_def using p' c' x' own fresh ownnew newnet new by (auto simp: len)
qed

lemma pool_inv_dialled:
  "pool_inv H xs (W\<lparr>dialled := n\<rparr>) = pool_inv H xs W"
  by (simp add: pool_inv_def)

lemma pool_inv_newConnection:
  assumes inv: "pool_inv H xs W" and nc: "newConnection E P W = (r, P', W')"
  shows "pool_inv H xs W'"
    and "r = Inr a \<Longrightarrow> a = length (heap W)"
    and "r = Inr a \<Longrightarrow> pool_inv H (xs @ [a]) W'"
    and "r = Inr a \<Longrightarrow> pool_inv (insert a H) xs W'"
    and "conns P' = conns P"
  using nc pool_inv_alloc [OF inv]
  by (auto simp: newConnection_def pool_inv_dialled inv split: option.splits)

lemma pool_inv_idle_not_held:
  "pool_inv H xs W \<Longrightarrow> w \<in> set xs \<Longrightarrow> w \<notin> H"
  unfolding pool_inv_def by blast

lemma maintain_fill_inv:
  "pool_inv H (conns P) W \<Longrightarrow> maintain_fill E P W = (P', W') \<Longrightarrow> pool_inv H (conns P') W'"
proof (induction E P W arbitrary: P' W' rule: maintain_fill.induct)
  case (1 E P W)
  show ?case
  proof (cases "of_nat (length (conns P)) <s MinConn (config P)")
    case False
    with "1.prems" show ?thesis
      by simp
  next
    case True
    obtain r P1 W1 where nc: "newConnection E P W = (r, P1, W1)"
      by (cases "newConnection E P W") auto
    note n1 = pool_inv_newConnection [OF "1.prems"(1) nc]
    show ?thesis
    proof (cases r)
      case (Inl err)
      with True nc "1.prems" have "P' = P1" "W' = W1"
        by (simp_all add: maintain_fill.simps [of E P W])
      with n1(1,5) show ?thesis by simp
    next
      case (Inr conn)
      with True nc "1.prems"
      have rec: "maintain_fill E (P1\<lparr>conns := conns P1 @ [conn]\<rparr>) W1 = (P', W')"
        by (simp add: maintain_fill.simps [of E P W])
      from n1(3) [OF Inr] n1(5) have "pool_inv H (conns (P1\<lparr>conns := conns P1 @ [conn]\<rparr>)) W1"
        by simp
      from "1.IH" [OF True nc [symmetric, unfolded Inr] refl refl this rec] show ?thesis .
    qed
  qed
qed

lemma maintain_trim_inv:
  "pool_inv H (conns P) W \<Longrightarrow> maintain_trim E P W = Returns (P', W') \<Longrightarrow> pool_inv H (conns P') W'"
proof (induction E P W arbitrary: P' W' rule: maintain_trim.induct)
  case (1 E P W)
  show ?case
  proof (cases "MaxConn (config P) <s of_nat (length (conns P))")
    case False
    with "1.prems" show ?thesis
      by simp
  next
    case True
    with "1.prems" have ne: "conns P \<noteq> []"
      by (auto simp: maintain_trim.simps [of E P W] split: if_splits)
    with True "1.prems" obtain err W1 where
      cl: "WsConn_Close E (last (conns P)) W = Returns (err, W1)"
      and rec: "maintain_trim E (P\<lparr>conns := butlast (conns P)\<rparr>) W1 = Returns (P', W')"
      by (auto simp: maintain_trim.simps [of E P W] split: outcome.splits)
    from ne have "last (conns P) \<in> set (conns P)"
      by simp
    from pool_inv_close [OF "1.prems"(1) cl pool_inv_idle_not_held [OF "1.prems"(1) this]]
    have "pool_inv H (conns P) W1" .
    then have "pool_inv H (conns (P\<lparr>conns := butlast (conns P)\<rparr>)) W1"
      by (rule pool_inv_subset) (auto dest: in_set_butlastD)
    from "1.IH" [OF True ne cl refl this rec] show ?thesis .
  qed
qed

lemma maintainPoolSize_inv:
  assumes "pool_inv H (conns P) W" and "maintainPoolSize E P W = Returns (P', W')"
  shows "pool_inv H (conns P') W'"
proof -
  obtain P1 W1 where f: "maintain_fill E P W = (P1, W1)"
    by (cases "maintain_fill E P W") auto
  with assms(2) have t: "maintain_trim E P1 W1 = Returns (P', W')"
    by (simp add: maintainPoolSize_def)
  from maintain_trim_inv [OF maintain_fill_inv [OF assms(1) f] t] show ?thesis .
qed

lemma sweep_loop_inv:
  "pool_inv H (keep @ xs) W \<Longrightarrow> sweep_loop E P now xs keep W = Returns (keep', W')
   \<Longrightarrow> pool_inv H keep' W'"
proof (induction xs arbitrary: keep W)
  case Nil
  then show ?case by simp
next
  case (Cons x xs)
  from Cons.prems(2) obtain b where cls: "isIdleOrExpired P (deref W x) now = Returns b"
    by (cases "isIdleOrExpired P (deref W x) now") simp_all
  show ?case
  proof (cases b)
    case False
    with Cons.prems(2) cls have "sweep_loop E P now xs (keep @ [x]) W = Returns (keep', W')"
      by simp
    moreover from Cons.prems(1) have "pool_inv H ((keep @ [x]) @ xs) W"
      by simp
    ultimately show ?thesis
      by (rule Cons.IH [rotated])
  next
    case True
    with Cons.prems(2) cls obtain err W1 where
      cl: "WsConn_Close E x W = Returns (err, W1)"
      and rest: "sweep_loop E P now xs keep W1 = Returns (keep', W')"
      by (auto split: outcome.splits)
    have "x \<in> set (keep @ x # xs)"
      by simp
    from pool_inv_close [OF Cons.prems(1) cl pool_inv_idle_not_held [OF Cons.prems(1) this]]
    have "pool_inv H (keep @ x # xs) W1" .
    then have "pool_inv H (keep @ xs) W1"
      by (rule pool_inv_subset) auto
    from Cons.IH [OF this rest] show ?thesis .
  qed
qed

lemma healthCheckTick_inv:
  assumes "pool_inv H (conns P) W" and "healthCheckTick E P W = Returns (P', W')"
  shows "pool_inv H (conns P') W'"
proof -
  from assms(2) obtain keep W1 where
    sw: "sweep_loop E P (Now E (ticks W)) (conns P) [] (W\<lparr>ticks := Suc (ticks W)\<rparr>)
           = Returns (keep, W1)"
    and m: "maintainPoolSize E (P\<lparr>conns := keep\<rparr>) W1 = Returns (P', W')"
    by (auto simp: healthCheckTick_def split: if_splits outcome.splits)
  from assms(1) have "pool_inv H ([] @ conns P) (W\<lparr>ticks := Suc (ticks W)\<rparr>)"
    by (simp add: pool_inv_ticks)
  from sweep_loop_inv [OF this sw] have "pool_inv H (conns (P\<lparr>conns := keep\<rparr>)) W1"
    by simp
  from maintainPoolSize_inv [OF this m] show ?thesis .
qed

lemma Close_loop_inv:
  "pool_inv H xs W \<Longrightarrow> set ys \<subseteq> set xs \<Longrightarrow> Close_loop E ys W = Returns W'
   \<Longrightarrow> pool_inv H xs W'"
proof (induction ys arbitrary: W)
  case Nil
  then show ?case by simp
next
  case (Cons y ys)
  from Cons.prems(3) obtain err W1 where cl: "WsConn_Close E y W = Returns (err, W1)"
    and rest: "Close_loop E ys W1 = Returns W'"
    by (auto split: outcome.splits)
  from Cons.prems(2) have y: "y \<in> set xs" and ys: "set ys \<subseteq> set xs"
    by auto
  from pool_inv_close [OF Cons.prems(1) cl pool_inv_idle_not_held [OF Cons.prems(1) y]]
  have "pool_inv H xs W1" .
  from Cons.IH [OF this ys rest] show ?case .
qed

lemma Pool_Close_inv:
  assumes "pool_inv H (conns P) W" and "Pool_Close E P W = Returns (P', W')"
  shows "pool_inv H (conns P') W'"
proof (cases "closeOnce P")
  case True
  with assms show ?thesis
    by (simp add: Pool_Close_def)
next
  case False
  with assms(2) obtain W1 where cl: "Close_loop E (conns P) W = Returns W1"
    and r: "P' = P\<lparr>closeOnce := True, closeChan := True, conns := []\<rparr>" "W' = W1"
    by (auto simp: Pool_Close_def split: outcome.splits)
  from Close_loop_inv [OF assms(1) subset_refl cl] have "pool_inv H (conns P) W1" .
  then have "pool_inv H [] W1"
    by (rule pool_inv_subset) simp
  with r show ?thesis by simp
qed

lemma Acquire_inv:
  assumes "pool_inv H (conns P) W" and "Acquire E P W = (r, P', W')"
  shows "pool_inv H (conns P') W'"
proof (cases "0 < length (conns P)")
  case True
  with assms(2) have "P' = P\<lparr>conns := butlast (conns P)\<rparr>" "W' = W"
    by (simp_all add: Acquire_def)
  moreover from assms(1) have "pool_inv H (butlast (conns P)) W"
    by (rule pool_inv_subset) (auto dest: in_set_butlastD)
  ultimately show ?thesis by simp
next
  case False
  show ?thesis
  proof (cases "activeConnections P <s MaxConn (config P)")
    case lt: False
    with False assms show ?thesis
      by (simp add: Acquire_def)
  next
    case lt: True
    obtain r1 P1 W1 where nc: "newConnection E P W = (r1, P1, W1)"
      by (cases "newConnection E P W") auto
    with False lt assms(2) have "conns P' = conns P1" "W' = W1"
      by (auto simp: Acquire_def split: sum.splits)
    with pool_inv_newConnection(1,5) [OF assms(1) nc] show ?thesis
      by simp
  qed
qed

lemma WsConn_Release_inv:
  assumes "pool_inv H (conns P) W" and "WsConn_Release E w P W = Returns (P', W')"
  shows "P' = P \<and> W' = W"
proof -
  from assms(2) have "w < length (heap W)"
    by (simp add: WsConn_Release_def split: if_splits)
  with assms(1) have "p (heap W ! w) = None"
    by (simp add: pool_inv_def)
  with assms(2) \<open>w < length (heap W)\<close> show ?thesis
    by (simp add: WsConn_Release_def)
qed

lemma SendMessage_inv:
  assumes inv: "pool_inv H xs W" and snd: "SendMessage E w m W = Returns (err, W')"
  shows "pool_inv H xs W'"
proof (cases "c (heap W ! w)")
  case None
  with snd have "W' = W"
    by (simp add: SendMessage_def split: if_splits)
  with inv show ?thesis by simp
next
  case (Some t)
  from snd have valid: "w < length (heap W)"
    by (simp add: SendMessage_def split: if_splits)
  with snd Some have W': "W' = W\<lparr>heap := (heap W)[w := (heap W ! w)\<lparr>lastUsedAt := Now E (ticks W)\<rparr>],
      ticks := Suc (ticks W)\<rparr>"
    by (simp add: SendMessage_def)
  have same: "\<And>a. c (heap W' ! a) = c (heap W ! a) \<and> p (heap W' ! a) = p (heap W ! a)"
    using valid by (simp add: W' nth_list_update)
  have "length (heap W') = length (heap W)" "net W' = net W"
    by (simp_all add: W')
  with inv show ?thesis
    unfolding pool_inv_def by (simp add: same)
qed

lemma SendJSON_inv:
  assumes inv: "pool_inv H xs W" and snd: "SendJSON E w v W = Returns (err, W')"
  shows "pool_inv H xs W'"
proof (cases "c (heap W ! w)")
  case None
  with snd have "W' = W"
    by (simp add: SendJSON_def split: if_splits)
  with inv show ?thesis by simp
next
  case (Some t)
  from snd have valid: "w < length (heap W)"
    by (simp add: SendJSON_def split: if_splits)
  with snd Some have W': "W' = W\<lparr>heap := (heap W)[w := (heap W ! w)\<lparr>lastUsedAt := Now E (ticks W)\<rparr>],
      ticks := Suc (ticks W)\<rparr>"
    by (simp add: SendJSON_def)
  have same: "\<And>a. c (heap W' ! a) = c (heap W ! a) \<and> p (heap W' ! a) = p (heap W ! a)"
    using valid by (simp add: W' nth_list_update)
  have "length (heap W') = length (heap W)" "net W' = net W"
    by (simp_all add: W')
  with inv show ?thesis
    unfolding pool_inv_def by (simp add: same)
qed

lemma Read_same_world:
  "ReadMessage E w W = Returns (r, W') \<Longrightarrow> W' = W"
  "ReadJson E w W = Returns (r, W') \<Longrightarrow> W' = W"
  by (auto simp: ReadMessage_def ReadJson_def split: if_splits option.splits sum.splits)

lemma step_inv:
  assumes inv: "pool_inv H (conns (fst s)) (snd s)" and ok: "pool_op H x"
    and st: "step E x s = Returns s'"
  shows "pool_inv H (conns (fst s')) (snd s')"
proof -
  obtain P W where s: "s = (P, W)" by (cases s)
  obtain P' W' where s': "s' = (P', W')" by (cases s')
  from inv have i: "pool_inv H (conns P) W"
    by (simp add: s)
  have "pool_inv H (conns P') W'"
  proof (cases x)
    case OpAcquire
    with st s s' obtain r where "Acquire E P W = (r, P', W')"
      by (auto split: prod.splits)
    from Acquire_inv [OF i this] show ?thesis .
  next
    case (OpRelease w)
    with st s s' have "WsConn_Release E w P W = Returns (P', W')" by simp
    from WsConn_Release_inv [OF i this] i show ?thesis by simp
  next
    case (OpPoolRelease w)
    with ok show ?thesis by simp
  next
    case OpTick
    with st s s' have "healthCheckTick E P W = Returns (P', W')" by simp
    from healthCheckTick_inv [OF i this] show ?thesis .
  next
    case OpMaintain
    with st s s' have "maintainPoolSize E P W = Returns (P', W')" by simp
    from maintainPoolSize_inv [OF i this] show ?thesis .
  next
    case OpPoolClose
    with st s s' have "Pool_Close E P W = Returns (P', W')" by simp
    from Pool_Close_inv [OF i this] show ?thesis .
  next
    case (OpConnClose w)
    with st s s' obtain err where cl: "WsConn_Close E w W = Returns (err, W')" and "P' = P"
      by (auto split: outcome.splits)
    moreover from ok OpConnClose have "w \<notin> H" by simp
    ultimately show ?thesis
      using pool_inv_close [OF i cl] by simp
  next
    case (OpSendMessage w m)
    with st s s' obtain err where sm: "SendMessage E w m W = Returns (err, W')" and "P' = P"
      by (auto split: outcome.splits)
    with SendMessage_inv [OF i sm] show ?thesis by simp
  next
    case (OpSendJSON w v)
    with st s s' obtain err where sj: "SendJSON E w v W = Returns (err, W')" and "P' = P"
      by (auto split: outcome.splits)
    with SendJSON_inv [OF i sj] show ?thesis by simp
  next
    case (OpReadMessage w)
    with st s s' obtain r where "ReadMessage E w W = Returns (r, W')" and "P' = P"
      by (auto split: outcome.splits)
    with Read_same_world(1) [OF this(1)] i show ?thesis by simp
  next
    case (OpReadJson w)
    with st s s' obtain r where "ReadJson E w W = Returns (r, W')" and "P' = P"
      by (auto split: outcome.splits)
    with Read_same_world(2) [OF this(1)] i show ?thesis by simp
  qed
  then show ?thesis by (simp add: s')
qed

lemma run_inv:
  "pool_inv H (conns (fst s)) (snd s) \<Longrightarrow> list_all (pool_op H) ops
   \<Longrightarrow> run E ops s = Returns s' \<Longrightarrow> pool_inv H (conns (fst s')) (snd s')"
proof (induction ops arbitrary: s)
  case Nil
  then show ?case by simp
next
  case (Cons x xs)
  from Cons.prems(3) obtain s1 where st: "step E x s = Returns s1"
    and rest: "run E xs s1 = Returns s'"
    by (auto split: outcome.splits)
  from Cons.prems(2) have ok: "pool_op H x" "list_all (pool_op H) xs"
    by simp_all
  from Cons.IH [OF step_inv [OF Cons.prems(1) ok(1) st] ok(2) rest] show ?case .
qed

lemma New_loop_inv:
  "pool_inv H (conns P) W \<Longrightarrow> New_loop E i P W = (Inr P', W') \<Longrightarrow> pool_inv H (conns P') W'"
proof (induction E i P W arbitrary: P' W' rule: New_loop.induct)
  case (1 E i P W)
  show ?case
  proof (cases "i <s MinConn (config P)")
    case False
    with "1.prems" show ?thesis
      by simp
  next
    case True
    obtain r P1 W1 where nc: "newConnection E P W = (r, P1, W1)"
      by (cases "newConnection E P W") auto
    note n1 = pool_inv_newConnection [OF "1.prems"(1) nc]
    show ?thesis
    proof (cases r)
      case (Inl err)
      with True nc "1.prems" show ?thesis
        by (simp add: New_loop.simps [of E i P W])
    next
      case (Inr conn)
      with True nc "1.prems"
      have rec: "New_loop E (i + 1) (P1\<lparr>conns := conns P1 @ [conn]\<rparr>) W1 = (Inr P', W')"
        by (simp add: New_loop.simps [of E i P W])
      from n1(3) [OF Inr] n1(5) have "pool_inv H (conns (P1\<lparr>conns := conns P1 @ [conn]\<rparr>)) W1"
        by simp
      from "1.IH" [OF True nc [symmetric, unfolded Inr] refl refl this rec] show ?thesis .
    qed
  qed
qed

lemma New_inv:
  assumes "New E cfg world0 = Returns (Inr P, W)"
  shows "pool_inv {} (conns P) W"
proof -
  let ?P0 = "\<lparr>conns = [], config = cfg, activeConnections = 0, closeOnce = False, closeChan = False\<rparr>"
  from assms have "New_loop E 0 ?P0 world0 = (Inr P, W)"
    by (auto simp: New_def split: if_splits)
  moreover have "pool_inv {} (conns ?P0) world0"
    by (simp add: pool_inv_def world0_def)
  ultimately show ?thesis
    by (rule New_loop_inv [rotated])
qed

lemma sint_even_count:
  assumes "m < 2 ^ 30"
  shows "sint (of_nat (2 * m) :: int32) = 2 * int m"
proof -
  from assms have "sint (0 :: int32) + int (2 * m) < 2 ^ 31"
    by simp
  from sint_add_of_nat [OF this] show ?thesis
    by simp
qed

lemma Acquire_all_dials:
  assumes idle: "conns P = []" and cap: "MaxConn (config P) = 2147483647"
    and cnt: "activeConnections P = of_nat (2 * m)" and m: "m < 2 ^ 30"
  shows "\<exists>W'. step (example_env (\<lambda>n. True)) OpAcquire (P, W)
           = Returns (P\<lparr>activeConnections := of_nat (2 * Suc m)\<rparr>, W')"
proof -
  have "sint (activeConnections P) = 2 * int m"
    unfolding cnt by (rule sint_even_count [OF m])
  moreover have "sint (MaxConn (config P)) = 2147483647"
    unfolding cap by simp
  ultimately have "sint (activeConnections P) < sint (MaxConn (config P))"
    using m by simp
  then have lt: "activeConnections P <s MaxConn (config P)"
    by (simp add: word_sless_alt)
  have "activeConnections P + 1 + 1 = of_nat (2 * Suc m)"
    by (simp add: cnt)
  with idle lt show ?thesis
    by (simp add: Acquire_def newConnection_def example_env_def)
qed

lemma Acquire_many:
  "conns P = [] \<Longrightarrow> MaxConn (config P) = 2147483647 \<Longrightarrow> activeConnections P = of_nat (2 * m)
   \<Longrightarrow> m + n \<le> 2 ^ 30
   \<Longrightarrow> \<exists>W'. run (example_env (\<lambda>n. True)) (replicate n OpAcquire) (P, W)
           = Returns (P\<lparr>activeConnections := of_nat (2 * (m + n))\<rparr>, W')"
proof (induction n arbitrary: P W m)
  case 0
  then show ?case by simp
next
  case (Suc n)
  from Suc.prems(4) have m: "m < 2 ^ 30" and rest: "Suc m + n \<le> 2 ^ 30"
    by simp_all
  from Acquire_all_dials [OF Suc.prems(1,2,3) m] obtain W1 where
    st: "step (example_env (\<lambda>n. True)) OpAcquire (P, W)
           = Returns (P\<lparr>activeConnections := of_nat (2 * Suc m)\<rparr>, W1)"
    by blast
  let ?P1 = "P\<lparr>activeConnections := of_nat (2 * Suc m)\<rparr>"
  from Suc.prems(1,2) have "conns ?P1 = []" "MaxConn (config ?P1) = 2147483647"
    "activeConnections ?P1 = of_nat (2 * Suc m)"
    by simp_all
  from Suc.IH [OF this rest] obtain W' where
    "run (example_env (\<lambda>n. True)) (replicate n OpAcquire) (?P1, W1)
       = Returns (?P1\<lparr>activeConnections := of_nat (2 * (Suc m + n))\<rparr>, W')"
    by blast
  with st show ?case
    by simp
qed

lemma caller_op_pool_op: "caller_op x \<Longrightarrow> pool_op {} x"
  by (cases x) simp_all

lemma step_closed_empty:
  assumes inv: "pool_inv {} (conns P) W" and idle: "conns P = []" and once: "closeOnce P"
    and ok: "caller_op x" and st: "step E x (P, W) = Returns (P', W')"
  shows "conns P' = [] \<and> closeOnce P'"
proof (cases x)
  case OpAcquire
  with st idle once show ?thesis
    by (auto simp: Acquire_def newConnection_def split: if_splits option.splits)
next
  case (OpRelease w)
  with st have "WsConn_Release E w P W = Returns (P', W')" by simp
  from WsConn_Release_inv [OF inv this] idle once show ?thesis by simp
next
  case OpPoolClose
  with st idle once show ?thesis
    by (simp add: Pool_Close_def)
next
  case (OpConnClose w)
  with st idle once show ?thesis
    by (auto split: outcome.splits)
next
  case (OpSendMessage w m)
  with st idle once show ?thesis
    by (auto split: outcome.splits)
next
  case (OpSendJSON w v)
  with st idle once show ?thesis
    by (auto split: outcome.splits)
next
  case (OpReadMessage w)
  with st idle once show ?thesis
    by (auto split: outcome.splits)
next
  case (OpReadJson w)
  with st idle once show ?thesis
    by (auto split: outcome.splits)
qed (use ok in simp_all)

lemma run_closed_empty:
  "pool_inv {} (conns (fst s)) (snd s) \<Longrightarrow> conns (fst s) = [] \<Longrightarrow> closeOnce (fst s)
   \<Longrightarrow> list_all caller_op ops \<Longrightarrow> run E ops s = Returns s'
   \<Longrightarrow> conns (fst s') = [] \<and> closeOnce (fst s')"
proof (induction ops arbitrary: s)
  case Nil
  then show ?case by simp
next
  case (Cons x xs)
  from Cons.prems(5) obtain s1 where st: "step E x s = Returns s1"
    and rest: "run E xs s1 = Returns s'"
    by (auto split: outcome.splits)
  from Cons.prems(4) have ok: "caller_op x" "list_all caller_op xs"
    by simp_all
  from step_inv [OF Cons.prems(1) caller_op_pool_op [OF ok(1)] st]
  have i1: "pool_inv {} (conns (fst s1)) (snd s1)" .
  from step_closed_empty [OF _ _ _ ok(1), of "fst s" "snd s" E "fst s1" "snd s1"]
    Cons.prems(1,2,3) st
  have "conns (fst s1) = [] \<and> closeOnce (fst s1)"
    by simp
  with Cons.IH [OF i1 _ _ ok(2) rest] show ?case
    by simp
qed

section \<open>The claims\<close>

text \<open>
  Claim C1: with no concurrent users, after \<open>Acquire\<close> returns a handle and the handle is
  released with no \<open>Close\<close> in between, the next \<open>Acquire\<close> returns the same handle.

  The code does not do this. \<open>Release\<close> returns at once when \<open>w.p\<close> is nil, and
  \<open>newConnection\<close> never sets \<open>p\<close>, so the handle never reaches \<open>Pool.release\<close>. With
  \<open>MinConn = 1\<close> and \<open>MaxConn = 4\<close> the first \<open>Acquire\<close> returns handle 0, the idle list
  is still empty after \<open>Release\<close>, and the second \<open>Acquire\<close> dials handle 1.
\<close>

theorem release_does_not_requeue:
  "acquire_release_acquire (example_env (\<lambda>n. True)) (example_config 1 4) = Some (0, [], Inr 1)"
  by code_simp

text \<open>
  Claim C2: in every reachable state the connections that are open, idle or acquired,
  number at most \<open>MaxConn\<close>.

  The code breaks the bound. \<open>Acquire\<close> dials only while \<open>activeConnections < MaxConn\<close>,
  but the refill loop of \<open>maintainPoolSize\<close> dials without looking at \<open>MaxConn\<close>. With
  \<open>MinConn = MaxConn = 1\<close>: \<open>New\<close> opens transport 0, \<open>Acquire\<close> hands it out, and the
  next tick of the health check finds the idle list empty and opens transport 1. Both
  are open, one acquired and one idle.
\<close>

theorem refill_exceeds_MaxConn:
  "map_option (\<lambda>(P, W). (sint (MaxConn (config P)), conns P, map c (heap W), net W, open_count W))
     (after_ops (example_env (\<lambda>n. True)) (example_config 1 1) [OpAcquire, OpTick])
   = Some (1, [1], [Some 0, Some 1], [True, True], 2)"
  by code_simp

text \<open>
  Claim C3: if one of the \<open>MinConn\<close> dials of \<open>New\<close> fails, \<open>New\<close> returns an error and no
  pool, and every connection opened earlier in the loop is closed before it returns.

  \<open>New\<close> does return the error and no pool, but it returns from inside the loop and
  closes nothing. With \<open>MinConn = 2\<close>, the first dial succeeding and the second failing,
  transport 0 is still open when \<open>New\<close> has returned, and nothing refers to its handle.
\<close>

theorem New_leaks_on_failed_dial:
  "New (example_env (\<lambda>n. n = 0)) (example_config 2 4) world0
   = Returns (Inl (DialError 1),
       \<lparr>heap = [\<lparr>c = Some 0, p = None, createdAt = 0, lastUsedAt = 1\<rparr>],
        net = [True], dialled = 2, ticks = 2\<rparr>)"
  by code_simp

text \<open>
  Claim C4: when the idle set is empty and \<open>activeCount < MaxConn\<close>, \<open>Acquire\<close> dials,
  increases \<open>activeCount\<close> by exactly one and returns the new handle; when the idle set
  is empty and \<open>activeCount\<close> has reached \<open>MaxConn\<close> it returns an error and no handle.

  The counter goes up by two: \<open>newConnection\<close> increments it and \<open>Acquire\<close> increments it
  again. With \<open>MinConn = 0\<close> and \<open>MaxConn = 4\<close> the pool starts with the counter at 0 and
  no connection; after one \<open>Acquire\<close> one transport is open and the counter is 2.
\<close>

theorem Acquire_counts_twice:
  "map_option (\<lambda>(P, W). (conns P, activeConnections P, net W))
     (after_ops (example_env (\<lambda>n. True)) (example_config 0 4) [])
   = Some ([], 0, [])
   \<and> map_option (\<lambda>(P, W). (conns P, activeConnections P, net W))
     (after_ops (example_env (\<lambda>n. True)) (example_config 0 4) [OpAcquire])
   = Some ([], 2, [True])"
  by code_simp

text \<open>
  Claim C5: when \<open>release\<close> is invoked while the idle collection already holds \<open>MaxConn\<close>
  handles, the released handle is closed rather than re-queued, and \<open>activeCount\<close>
  decreases by one.

  The handle is closed and not re-queued, but the counter is not decreased: no statement
  of the package decrements \<open>activeConnections\<close>. In the state below the idle list holds
  \<open>MaxConn = 1\<close> handle and the counter is 2; releasing handle 0 returns the same pool,
  counter still 2.
\<close>

theorem release_at_capacity_keeps_count:
  "after_ops (example_env (\<lambda>n. True)) (example_config 1 1) [OpAcquire, OpTick]
     = Some (full_pool, full_world)
   \<and> length (conns full_pool) = 1 \<and> MaxConn (config full_pool) = 1
   \<and> activeConnections full_pool = 2
   \<and> Pool_release (example_env (\<lambda>n. True)) 0 full_pool full_world
     = Returns (full_pool, released_world)"
  by code_simp

text \<open>
  Claim C5 as amended: when \<open>Pool.release\<close> is invoked on a handle while the idle list
  holds \<open>MaxConn\<close> handles, the handle is closed and not re-queued, and the counter is not
  decreased: \<open>release\<close> goes on to \<open>maintainPoolSize\<close> with the pool as it was, and when
  \<open>MinConn \<le> MaxConn\<close> that changes nothing, so the pool, its idle list and
  \<open>activeConnections\<close> included, is returned as it was.
\<close>

theorem release_at_capacity:
  assumes "of_nat (length (conns P)) = MaxConn (config P)"
    and "w < length (heap W)"
  shows "\<exists>err W1. WsConn_Close E w W = Returns (err, W1)
           \<and> c (heap W1 ! w) = None
           \<and> net W1 = (case c (heap W ! w) of None \<Rightarrow> net W | Some t \<Rightarrow> (net W)[t := False])
           \<and> Pool_release E w P W = maintainPoolSize E P W1
           \<and> (MinConn (config P) \<le>s MaxConn (config P) \<longrightarrow>
                Pool_release E w P W = Returns (P, W1))"
proof -
  from assms(2) obtain err W1 where cl: "WsConn_Close E w W = Returns (err, W1)"
    by (cases "c (heap W ! w)") (auto simp: WsConn_Close_def)
  note c1 = WsConn_Close_Returns [OF cl]
  from assms(1) have full: "\<not> of_nat (length (conns P)) <s MaxConn (config P)"
    by simp
  with cl have rel: "Pool_release E w P W = maintainPoolSize E P W1"
    by (simp add: Pool_release_def)
  have same: "Pool_release E w P W = Returns (P, W1)"
    if valid: "MinConn (config P) \<le>s MaxConn (config P)"
  proof -
    from assms(1) valid have nofill: "\<not> of_nat (length (conns P)) <s MinConn (config P)"
      by (simp add: word_sless_alt word_sle_eq)
    from assms(1) have notrim: "\<not> MaxConn (config P) <s of_nat (length (conns P))"
      by simp
    from nofill notrim have "maintainPoolSize E P W1 = Returns (P, W1)"
      by (simp add: maintainPoolSize_def)
    with rel show ?thesis
      by simp
  qed
  have "c (heap W1 ! w) = None"
    using c1(1) by (simp add: c1(2))
  with cl c1(3) rel same show ?thesis
    by blast
qed

text \<open>The amended claim at the state of the counterexample.\<close>

theorem release_at_capacity_witness:
  "of_nat (length (conns full_pool)) = MaxConn (config full_pool)
   \<and> 0 < length (heap full_world)
   \<and> MinConn (config full_pool) \<le>s MaxConn (config full_pool)
   \<and> WsConn_Close (example_env (\<lambda>n. True)) 0 full_world = Returns (None, released_world)
   \<and> Pool_release (example_env (\<lambda>n. True)) 0 full_pool full_world = Returns (full_pool, released_world)
   \<and> c (heap released_world ! 0) = None"
proof -
  have h1: "of_nat (length (conns full_pool)) = MaxConn (config full_pool)"
    by code_simp
  have h2: "0 < length (heap full_world)"
    by code_simp
  have h3: "MinConn (config full_pool) \<le>s MaxConn (config full_pool)"
    by code_simp
  have cl: "WsConn_Close (example_env (\<lambda>n. True)) 0 full_world = Returns (None, released_world)"
    by code_simp
  from release_at_capacity [OF h1 h2, of "example_env (\<lambda>n. True)"] cl h3
  have "Pool_release (example_env (\<lambda>n. True)) 0 full_pool full_world = Returns (full_pool, released_world)
      \<and> c (heap released_world ! 0) = None"
    by auto
  with h1 h2 h3 cl show ?thesis
    by simp
qed

text \<open>
  Claim C6: after \<open>Close\<close> has succeeded on a handle, every later operation on it
  (\<open>SendMessage\<close>, \<open>SendJSON\<close>, \<open>ReadMessage\<close>, \<open>ReadJson\<close>, \<open>Close\<close>) returns an error; none
  panics.

  \<open>SendMessage\<close>, \<open>SendJSON\<close> and \<open>Close\<close> test \<open>w.c == nil\<close> first. \<open>ReadMessage\<close> and
  \<open>ReadJson\<close> do not: on the closed handle they call the transport's read on a nil
  connection, which panics.
\<close>

theorem read_on_closed_handle_panics:
  "map_option snd
     (after_ops (example_env (\<lambda>n. True)) (example_config 1 4) [OpAcquire, OpConnClose 0])
   = Some closed_handle_world
   \<and> ReadMessage (example_env (\<lambda>n. True)) 0 closed_handle_world = Panic NilDereference
   \<and> ReadJson (example_env (\<lambda>n. True)) 0 closed_handle_world = Panic NilDereference"
  by code_simp

text \<open>
  Claim C7: \<open>activeConnections\<close> never decreases across any operation: \<open>newConnection\<close>
  increments it, \<open>Acquire\<close> increments it a second time when it dials, and nothing
  decrements it; so once it has reached \<open>MaxConn\<close>, every later \<open>Acquire\<close> with an empty idle
  set fails, however many connections are open.

  The counter is an int32 and the increment wraps. From \<open>New\<close> with \<open>MinConn = 0\<close> and
  \<open>MaxConn = 2147483647\<close>, each \<open>Acquire\<close> dials and adds two, and after \<open>2 ^ 30\<close> of them the
  counter has gone from 0 to -2147483648. In the same way a counter at 2147483647, which
  has reached \<open>MaxConn = 4\<close>, is taken to -2147483648 by one refill dial of
  \<open>maintainPoolSize\<close>, and the next \<open>Acquire\<close> with an empty idle set dials again and returns
  handle 1.
\<close>

theorem counter_wraps_at_int32:
  "map_option (\<lambda>(P, W). sint (activeConnections P))
     (after_ops (example_env (\<lambda>n. True)) big_config []) = Some 0
   \<and> map_option (\<lambda>(P, W). sint (activeConnections P))
     (after_ops (example_env (\<lambda>n. True)) big_config (replicate (2 ^ 30) OpAcquire))
     = Some (- 2147483648)
   \<and> sint (activeConnections wrap_pool) = 2147483647
   \<and> MaxConn (config wrap_pool) \<le>s activeConnections wrap_pool
   \<and> run (example_env (\<lambda>n. True)) [OpMaintain, OpAcquire] (wrap_pool, world0)
       = Returns (wrap_pool\<lparr>activeConnections := 2147483648\<rparr>, one_world)
   \<and> sint (2147483648 :: int32) = - 2147483648
   \<and> fst (Acquire (example_env (\<lambda>n. True)) (wrap_pool\<lparr>activeConnections := 2147483648\<rparr>) one_world)
       = Inr 1"
proof -
  let ?E = "example_env (\<lambda>n. True)"
  let ?P0 = "\<lparr>conns = [], config = big_config, activeConnections = 0,
     closeOnce = False, closeChan = False\<rparr>"
  have made: "New ?E big_config world0 = Returns (Inr ?P0, world0)"
    by code_simp
  have "conns ?P0 = []" "MaxConn (config ?P0) = 2147483647"
    "activeConnections ?P0 = of_nat (2 * 0)" "0 + 2 ^ 30 \<le> (2 ^ 30 :: nat)"
    by (simp_all add: big_config_def example_config_def)
  from Acquire_many [OF this] obtain W' where
    "run ?E (replicate (2 ^ 30) OpAcquire) (?P0, world0)
       = Returns (?P0\<lparr>activeConnections := of_nat (2 * (0 + 2 ^ 30))\<rparr>, W')"
    by blast
  with made have
    "map_option (\<lambda>(P, W). sint (activeConnections P)) (after_ops ?E big_config (replicate (2 ^ 30) OpAcquire))
       = Some (sint (of_nat (2 * (0 + 2 ^ 30)) :: int32))"
    by (simp add: after_ops_def)
  moreover have "sint (of_nat (2 * (0 + 2 ^ 30)) :: int32) = - 2147483648"
    by simp
  moreover have "map_option (\<lambda>(P, W). sint (activeConnections P)) (after_ops ?E big_config []) = Some 0"
    using made by (simp add: after_ops_def)
  moreover have "sint (activeConnections wrap_pool) = 2147483647
   \<and> MaxConn (config wrap_pool) \<le>s activeConnections wrap_pool
   \<and> run ?E [OpMaintain, OpAcquire] (wrap_pool, world0)
       = Returns (wrap_pool\<lparr>activeConnections := 2147483648\<rparr>, one_world)
   \<and> sint (2147483648 :: int32) = - 2147483648
   \<and> fst (Acquire ?E (wrap_pool\<lparr>activeConnections := 2147483648\<rparr>) one_world) = Inr 1"
    by code_simp
  ultimately show ?thesis
    by simp
qed

text \<open>
  Claim C7 as amended: over any sequence of operations that returns, the configuration
  is kept and the counter is never decremented: it receives exactly one increment for
  each successful \<open>newConnection\<close> (each transport added) and one more for each of these
  that was dialled by \<open>Acquire\<close>. As long as these increments do not overflow int32, the
  counter has not decreased, and if it had reached \<open>MaxConn\<close> at the start then \<open>Acquire\<close>
  with an empty idle set fails with "no available connections" and changes nothing.
\<close>

theorem activeConnections_never_decremented:
  assumes ran: "run E ops (P, W) = Returns (P', W')"
  shows "config P' = config P
       \<and> length (net W) \<le> length (net W')
       \<and> acquire_dials E ops (P, W) \<le> length (net W') - length (net W)
       \<and> activeConnections P' =
           activeConnections P
           + of_nat (length (net W') - length (net W) + acquire_dials E ops (P, W))
       \<and> (sint (activeConnections P) + 2 * int (length (net W') - length (net W)) < 2 ^ 31 \<longrightarrow>
             sint (activeConnections P) \<le> sint (activeConnections P')
           \<and> (MaxConn (config P) \<le>s activeConnections P \<longrightarrow> length (conns P') = 0 \<longrightarrow>
                 Acquire E P' W' = (Inl (ErrorString ''no available connections''), P', W')))"
proof -
  let ?d = "length (net W') - length (net W)" and ?n = "acquire_dials E ops (P, W)"
  from run_grows [OF ran] have
    cfg: "config P' = config P"
    and le: "length (net W) \<le> length (net W')"
    and n: "?n \<le> ?d"
    and act: "activeConnections P' = activeConnections P + of_nat (?d + ?n)"
    by (auto simp: grows_def)
  have mono: "sint (activeConnections P) \<le> sint (activeConnections P')"
    if small: "sint (activeConnections P) + 2 * int ?d < 2 ^ 31"
  proof -
    from n small have "sint (activeConnections P) + int (?d + ?n) < 2 ^ 31"
      by linarith
    from sint_add_of_nat [OF this] act show ?thesis
      by simp
  qed
  have fails: "Acquire E P' W' = (Inl (ErrorString ''no available connections''), P', W')"
    if small: "sint (activeConnections P) + 2 * int ?d < 2 ^ 31"
      and reached: "MaxConn (config P) \<le>s activeConnections P"
      and empty: "length (conns P') = 0"
  proof -
    from mono [OF small] reached cfg
    have "\<not> activeConnections P' <s MaxConn (config P')"
      by (simp add: word_sless_alt word_sle_eq)
    with empty show ?thesis
      by (simp add: Acquire_def)
  qed
  from cfg le n act mono fails show ?thesis
    by blast
qed

text \<open>
  From the pool of \<open>New\<close> with \<open>MinConn = MaxConn = 1\<close>: \<open>Acquire\<close>, a tick that refills,
  and \<open>Acquire\<close> again leave the idle list empty and the counter at 2, one more than at
  the start for the one transport dialled, by the tick; the next \<open>Acquire\<close> fails. From the
  pool of \<open>New\<close> with \<open>MinConn = 1\<close> and \<open>MaxConn = 4\<close>, two \<open>Acquire\<close>s, the second of which
  dials, take the counter from 1 to 3.
\<close>

theorem activeConnections_never_decremented_witness:
  "run (example_env (\<lambda>n. True)) [OpAcquire, OpTick, OpAcquire] (one_pool, one_world)
     = Returns (full_pool\<lparr>conns := []\<rparr>, full_world)
   \<and> length (net full_world) - length (net one_world) = 1
   \<and> acquire_dials (example_env (\<lambda>n. True)) [OpAcquire, OpTick, OpAcquire] (one_pool, one_world) = 0
   \<and> activeConnections (full_pool\<lparr>conns := []\<rparr>) = activeConnections one_pool + of_nat (1 + 0)
   \<and> sint (activeConnections one_pool)
       + 2 * int (length (net full_world) - length (net one_world)) < 2 ^ 31
   \<and> MaxConn (config one_pool) \<le>s activeConnections one_pool
   \<and> length (conns (full_pool\<lparr>conns := []\<rparr>)) = 0
   \<and> sint (activeConnections one_pool) \<le> sint (activeConnections (full_pool\<lparr>conns := []\<rparr>))
   \<and> Acquire (example_env (\<lambda>n. True)) (full_pool\<lparr>conns := []\<rparr>) full_world
       = (Inl (ErrorString ''no available connections''), full_pool\<lparr>conns := []\<rparr>, full_world)
   \<and> run (example_env (\<lambda>n. True)) [OpAcquire, OpAcquire] (start_pool, one_world)
       = Returns (start_pool\<lparr>conns := [], activeConnections := 3\<rparr>, tick_world)
   \<and> length (net tick_world) - length (net one_world) = 1
   \<and> acquire_dials (example_env (\<lambda>n. True)) [OpAcquire, OpAcquire] (start_pool, one_world) = 1
   \<and> activeConnections (start_pool\<lparr>conns := [], activeConnections := 3\<rparr>)
       = activeConnections start_pool + of_nat (1 + 1)"
proof -
  let ?E = "example_env (\<lambda>n. True)"
  have ran: "run ?E [OpAcquire, OpTick, OpAcquire] (one_pool, one_world)
     = Returns (full_pool\<lparr>conns := []\<rparr>, full_world)"
    by code_simp
  have dials: "length (net full_world) - length (net one_world) = 1"
    by code_simp
  have by_acquire: "acquire_dials ?E [OpAcquire, OpTick, OpAcquire] (one_pool, one_world) = 0"
    by code_simp
  have small: "sint (activeConnections one_pool)
       + 2 * int (length (net full_world) - length (net one_world)) < 2 ^ 31"
    by code_simp
  have reached: "MaxConn (config one_pool) \<le>s activeConnections one_pool"
    by code_simp
  have empty: "length (conns (full_pool\<lparr>conns := []\<rparr>)) = 0"
    by simp
  note counted = activeConnections_never_decremented [OF ran]
  from counted dials by_acquire
  have exact: "activeConnections (full_pool\<lparr>conns := []\<rparr>) = activeConnections one_pool + of_nat (1 + 0)"
    by simp
  from counted small reached empty
  have fails: "sint (activeConnections one_pool) \<le> sint (activeConnections (full_pool\<lparr>conns := []\<rparr>))
   \<and> Acquire ?E (full_pool\<lparr>conns := []\<rparr>) full_world
       = (Inl (ErrorString ''no available connections''), full_pool\<lparr>conns := []\<rparr>, full_world)"
    by blast
  have ran': "run ?E [OpAcquire, OpAcquire] (start_pool, one_world)
       = Returns (start_pool\<lparr>conns := [], activeConnections := 3\<rparr>, tick_world)"
    by code_simp
  have dials': "length (net tick_world) - length (net one_world) = 1"
    by code_simp
  have by_acquire': "acquire_dials ?E [OpAcquire, OpAcquire] (start_pool, one_world) = 1"
    by code_simp
  from activeConnections_never_decremented [OF ran'] dials' by_acquire'
  have exact': "activeConnections (start_pool\<lparr>conns := [], activeConnections := 3\<rparr>)
       = activeConnections start_pool + of_nat (1 + 1)"
    by simp
  from ran dials by_acquire exact small reached empty fails ran' dials' by_acquire' exact'
  show ?thesis
    by blast
qed

text \<open>
  Claim C8: every send variant (raw text and JSON) on a closed handle fails with the
  closed-connection error; it never panics and never succeeds.

  A closed handle is one whose \<open>c\<close> is nil, which is how \<open>Close\<close> leaves a handle whatever
  the transport answers to the close. On such a handle each variant returns
  \<open>errors.New("connection is nil")\<close> and leaves the world as it was: nothing is written
  and \<open>lastUsedAt\<close> is not touched.
\<close>

theorem send_on_closed_handle:
  assumes "(w < length (heap W) \<and> c (heap W ! w) = None)
         \<or> (\<exists>W0 r. WsConn_Close E w W0 = Returns (r, W))"
  shows "SendMessage E w m W = Returns (Some (ErrorString ''connection is nil''), W)
       \<and> Send E w m W = Returns (Some (ErrorString ''connection is nil''), W)
       \<and> SendJSON E w v W = Returns (Some (ErrorString ''connection is nil''), W)"
proof -
  from assms have "w < length (heap W) \<and> c (heap W ! w) = None"
  proof
    assume "\<exists>W0 r. WsConn_Close E w W0 = Returns (r, W)"
    then obtain W0 r where cl: "WsConn_Close E w W0 = Returns (r, W)"
      by blast
    note c1 = WsConn_Close_Returns [OF cl]
    from c1(1) show ?thesis
      by (simp add: c1(2))
  qed
  then show ?thesis
    by (simp add: SendMessage_def Send_def SendJSON_def)
qed

text \<open>
  After \<open>New\<close> and \<open>Acquire\<close>, \<open>Close\<close> on handle 0 returns nil; every send on the handle
  then fails.
\<close>

theorem send_on_closed_handle_witness:
  "after_ops (example_env (\<lambda>n. True)) (example_config 1 4) [OpAcquire]
     = Some (start_pool\<lparr>conns := []\<rparr>, one_world)
   \<and> WsConn_Close (example_env (\<lambda>n. True)) 0 one_world = Returns (None, closed_handle_world)
   \<and> SendMessage (example_env (\<lambda>n. True)) 0 ''hi'' closed_handle_world
       = Returns (Some (ErrorString ''connection is nil''), closed_handle_world)
   \<and> Send (example_env (\<lambda>n. True)) 0 ''hi'' closed_handle_world
       = Returns (Some (ErrorString ''connection is nil''), closed_handle_world)
   \<and> SendJSON (example_env (\<lambda>n. True)) 0 ''{}'' closed_handle_world
       = Returns (Some (ErrorString ''connection is nil''), closed_handle_world)"
proof -
  let ?E = "example_env (\<lambda>n. True)"
  have ran: "after_ops ?E (example_config 1 4) [OpAcquire] = Some (start_pool\<lparr>conns := []\<rparr>, one_world)"
    by code_simp
  have cl: "WsConn_Close ?E 0 one_world = Returns (None, closed_handle_world)"
    by code_simp
  then have "(0 < length (heap closed_handle_world) \<and> c (heap closed_handle_world ! 0) = None)
         \<or> (\<exists>W0 r. WsConn_Close ?E 0 W0 = Returns (r, closed_handle_world))"
    by blast
  from send_on_closed_handle [OF this, of "''hi''" "''{}''"] ran cl show ?thesis
    by simp
qed

text \<open>
  Claim C9: the sweep closes an idle handle exactly when \<open>MaxConnLifetime\<close> is nonzero and
  the time since \<open>createdAt\<close> exceeds it, or \<open>MaxConnIdleTime\<close> is nonzero and the time
  since \<open>lastUsedAt\<close> exceeds it; a zero threshold disables its check; all other handles
  are retained as the new idle set.

  \<open>isIdleOrExpired\<close> tests \<open>MaxConnLifetime > 0\<close>, not \<open>!= 0\<close>, and a \<open>time.Duration\<close> can be
  negative. With \<open>MaxConnLifetime = -1\<close> every handle is older than the threshold, so the
  claim has it closed, while the code treats the threshold as absent and the tick keeps
  the handle open and idle.
\<close>

theorem negative_threshold_not_expired:
  "claimed_expired
     \<lparr>conns = [0], config = (example_config 1 4)\<lparr>MaxConnLifetime := - 1\<rparr>,
      activeConnections = 1, closeOnce = False, closeChan = False\<rparr>
     \<lparr>c = Some 0, p = None, createdAt = 0, lastUsedAt = 1\<rparr> 2
   \<and> isIdleOrExpired
     \<lparr>conns = [0], config = (example_config 1 4)\<lparr>MaxConnLifetime := - 1\<rparr>,
      activeConnections = 1, closeOnce = False, closeChan = False\<rparr>
     (Some \<lparr>c = Some 0, p = None, createdAt = 0, lastUsedAt = 1\<rparr>) 2 = Returns False
   \<and> map_option (\<lambda>(P, W). (conns P, map c (heap W), net W))
       (after_ops (example_env (\<lambda>n. True)) ((example_config 1 4)\<lparr>MaxConnLifetime := - 1\<rparr>) [OpTick])
     = Some ([0], [Some 0], [True])"
  by code_simp

text \<open>
  Claim C9 as amended: a tick that returns closes an idle handle exactly when
  \<open>MaxConnLifetime\<close> is positive and \<open>now.Sub(createdAt)\<close> exceeds it, or \<open>MaxConnIdleTime\<close>
  is positive and \<open>now.Sub(lastUsedAt)\<close> exceeds it, so a zero (or negative) threshold
  disables its check. The loop closes every such handle: its \<open>c\<close> becomes nil and its
  transport is closed; it changes no other handle and closes no other transport. The
  handles it keeps, in their order, are the idle list that \<open>maintainPoolSize\<close> is then
  run on, and which \<open>maintainPoolSize\<close> leaves as it is when its length is between
  \<open>MinConn\<close> and \<open>MaxConn\<close>.
\<close>

theorem sweep_closes_the_expired:
  fixes E P W
  defines "now \<equiv> Now E (ticks W)"
  defines "expired \<equiv> \<lambda>a. isIdleOrExpired P (deref W a) now = Returns True"
  defines "keep \<equiv> filter (\<lambda>a. \<not> expired a) (conns P)"
  assumes tick: "healthCheckTick E P W = Returns (P', W')"
  shows "(\<forall>w t. isIdleOrExpired P (Some w) t =
            Returns ((0 <s MaxConnLifetime (config P)
                        \<and> MaxConnLifetime (config P) <s Sub t (createdAt w))
                     \<or> (0 <s MaxConnIdleTime (config P)
                        \<and> MaxConnIdleTime (config P) <s Sub t (lastUsedAt w))))
       \<and> (\<forall>a. expired a \<longleftrightarrow>
            a < length (heap W)
            \<and> ((0 <s MaxConnLifetime (config P)
                   \<and> MaxConnLifetime (config P) <s Sub now (createdAt (heap W ! a)))
                \<or> (0 <s MaxConnIdleTime (config P)
                   \<and> MaxConnIdleTime (config P) <s Sub now (lastUsedAt (heap W ! a)))))
       \<and> (\<exists>W1.
            sweep_loop E P now (conns P) [] (W\<lparr>ticks := Suc (ticks W)\<rparr>) = Returns (keep, W1)
          \<and> length (heap W1) = length (heap W) \<and> length (net W1) = length (net W)
          \<and> (\<forall>a\<in>set (conns P). expired a \<longrightarrow> heap W1 ! a = (heap W ! a)\<lparr>c := None\<rparr>)
          \<and> (\<forall>a. \<not> (a \<in> set (conns P) \<and> expired a) \<longrightarrow> heap W1 ! a = heap W ! a)
          \<and> (\<forall>t<length (net W).
                net W1 ! t \<longleftrightarrow>
                  net W ! t \<and> \<not> (\<exists>a\<in>set (conns P). expired a \<and> c (heap W ! a) = Some t))
          \<and> maintainPoolSize E (P\<lparr>conns := keep\<rparr>) W1 = Returns (P', W')
          \<and> (\<not> of_nat (length keep) <s MinConn (config P)
               \<and> \<not> MaxConn (config P) <s of_nat (length keep)
               \<longrightarrow> P' = P\<lparr>conns := keep\<rparr> \<and> W' = W1))"
proof -
  let ?W0 = "W\<lparr>ticks := Suc (ticks W)\<rparr>"
  have d0: "deref ?W0 a = deref W a" for a
    by (simp add: deref_def)
  have classify: "\<forall>w t. isIdleOrExpired P (Some w) t =
            Returns ((0 <s MaxConnLifetime (config P)
                        \<and> MaxConnLifetime (config P) <s Sub t (createdAt w))
                     \<or> (0 <s MaxConnIdleTime (config P)
                        \<and> MaxConnIdleTime (config P) <s Sub t (lastUsedAt w)))"
    by (simp add: isIdleOrExpired_Some)
  have at_addr: "\<forall>a. expired a \<longleftrightarrow>
            a < length (heap W)
            \<and> ((0 <s MaxConnLifetime (config P)
                   \<and> MaxConnLifetime (config P) <s Sub now (createdAt (heap W ! a)))
                \<or> (0 <s MaxConnIdleTime (config P)
                   \<and> MaxConnIdleTime (config P) <s Sub now (lastUsedAt (heap W ! a))))"
    unfolding expired_def
    by (auto simp: deref_def isIdleOrExpired_Some isIdleOrExpired_None)
  from tick obtain kept W1 where
    sw: "sweep_loop E P now (conns P) [] ?W0 = Returns (kept, W1)"
    and mt: "maintainPoolSize E (P\<lparr>conns := kept\<rparr>) W1 = Returns (P', W')"
    by (auto simp: healthCheckTick_def now_def split: if_splits outcome.splits)
  note sl = sweep_loop_Returns [OF sw, unfolded d0]
  from sl have kept: "kept = keep"
    by (simp add: keep_def expired_def)
  from sl have lens: "length (heap W1) = length (heap W)" "length (net W1) = length (net W)"
    by simp_all
  from sl have closed: "\<forall>a\<in>set (conns P). expired a \<longrightarrow> heap W1 ! a = (heap W ! a)\<lparr>c := None\<rparr>"
    and others: "\<forall>a. \<not> (a \<in> set (conns P) \<and> expired a) \<longrightarrow> heap W1 ! a = heap W ! a"
    and nets: "\<forall>t<length (net W).
                net W1 ! t \<longleftrightarrow>
                  net W ! t \<and> \<not> (\<exists>a\<in>set (conns P). expired a \<and> c (heap W ! a) = Some t)"
    by (simp_all add: expired_def)
  have inrange: "\<not> of_nat (length keep) <s MinConn (config P)
      \<and> \<not> MaxConn (config P) <s of_nat (length keep)
      \<longrightarrow> P' = P\<lparr>conns := keep\<rparr> \<and> W' = W1"
    using mt unfolding kept by (auto simp: maintainPoolSize_def)
  from sw mt lens closed others nets inrange have
    "\<exists>W1.
            sweep_loop E P now (conns P) [] ?W0 = Returns (keep, W1)
          \<and> length (heap W1) = length (heap W) \<and> length (net W1) = length (net W)
          \<and> (\<forall>a\<in>set (conns P). expired a \<longrightarrow> heap W1 ! a = (heap W ! a)\<lparr>c := None\<rparr>)
          \<and> (\<forall>a. \<not> (a \<in> set (conns P) \<and> expired a) \<longrightarrow> heap W1 ! a = heap W ! a)
          \<and> (\<forall>t<length (net W).
                net W1 ! t \<longleftrightarrow>
                  net W ! t \<and> \<not> (\<exists>a\<in>set (conns P). expired a \<and> c (heap W ! a) = Some t))
          \<and> maintainPoolSize E (P\<lparr>conns := keep\<rparr>) W1 = Returns (P', W')
          \<and> (\<not> of_nat (length keep) <s MinConn (config P)
               \<and> \<not> MaxConn (config P) <s of_nat (length keep)
               \<longrightarrow> P' = P\<lparr>conns := keep\<rparr> \<and> W' = W1)"
    unfolding kept by blast
  with classify at_addr show ?thesis
    by blast
qed

text \<open>
  A tick at time 4 with an idle limit of 2: handle 0, last used at 1, is closed and so is
  its transport; handle 1, last used at 3, is kept with its transport open.
\<close>

theorem sweep_closes_the_expired_witness:
  "New (example_env (\<lambda>n. True)) idle_config world0 = Returns (Inr tick_pool, tick_world)
   \<and> map (\<lambda>a. isIdleOrExpired tick_pool (deref tick_world a) 4) (conns tick_pool)
       = [Returns True, Returns False]
   \<and> (\<exists>W1. sweep_loop (example_env (\<lambda>n. True)) tick_pool 4 [0, 1] []
               (tick_world\<lparr>ticks := Suc (ticks tick_world)\<rparr>) = Returns ([1], W1)
          \<and> heap W1 ! 0 = (heap tick_world ! 0)\<lparr>c := None\<rparr>
          \<and> heap W1 ! 1 = heap tick_world ! 1
          \<and> \<not> net W1 ! 0 \<and> net W1 ! 1)"
proof -
  let ?E = "example_env (\<lambda>n. True)"
  have made: "New ?E idle_config world0 = Returns (Inr tick_pool, tick_world)"
    by code_simp
  have tick: "healthCheckTick ?E tick_pool tick_world
      = Returns
         (\<lparr>conns = [1, 2], config = idle_config, activeConnections = 3,
           closeOnce = False, closeChan = False\<rparr>,
          \<lparr>heap = [\<lparr>c = None, p = None, createdAt = 0, lastUsedAt = 1\<rparr>,
                   \<lparr>c = Some 1, p = None, createdAt = 2, lastUsedAt = 3\<rparr>,
                   \<lparr>c = Some 2, p = None, createdAt = 5, lastUsedAt = 6\<rparr>],
           net = [False, True, True], dialled = 3, ticks = 7\<rparr>)"
    by code_simp
  have now: "Now ?E (ticks tick_world) = 4"
    by code_simp
  have cs: "conns tick_pool = [0, 1]"
    by code_simp
  have e0: "isIdleOrExpired tick_pool (deref tick_world 0) 4 = Returns True"
    by code_simp
  have e1: "isIdleOrExpired tick_pool (deref tick_world 1) 4 = Returns False"
    by code_simp
  have st: "c (heap tick_world ! 0) = Some 0" "c (heap tick_world ! 1) = Some 1"
    "net tick_world ! 0" "net tick_world ! 1" "length (net tick_world) = 2"
    by (simp_all add: tick_world_def)
  from sweep_closes_the_expired [OF tick, unfolded now cs]
  obtain W1 where
    sw: "sweep_loop ?E tick_pool 4 [0, 1] [] (tick_world\<lparr>ticks := Suc (ticks tick_world)\<rparr>)
       = Returns (filter (\<lambda>a. isIdleOrExpired tick_pool (deref tick_world a) 4 \<noteq> Returns True) [0, 1], W1)"
    and closed: "\<forall>a\<in>set [0, 1]. isIdleOrExpired tick_pool (deref tick_world a) 4 = Returns True
        \<longrightarrow> heap W1 ! a = (heap tick_world ! a)\<lparr>c := None\<rparr>"
    and others: "\<forall>a. \<not> (a \<in> set [0, 1] \<and> isIdleOrExpired tick_pool (deref tick_world a) 4 = Returns True)
        \<longrightarrow> heap W1 ! a = heap tick_world ! a"
    and nets: "\<forall>t<length (net tick_world).
        net W1 ! t \<longleftrightarrow>
          net tick_world ! t
          \<and> \<not> (\<exists>a\<in>set [0, 1]. isIdleOrExpired tick_pool (deref tick_world a) 4 = Returns True
                  \<and> c (heap tick_world ! a) = Some t)"
    by blast
  from sw e0 e1 have sw': "sweep_loop ?E tick_pool 4 [0, 1] []
      (tick_world\<lparr>ticks := Suc (ticks tick_world)\<rparr>) = Returns ([1], W1)"
    by simp
  from closed e0 have h0: "heap W1 ! 0 = (heap tick_world ! 0)\<lparr>c := None\<rparr>"
    by simp
  from others e1 have h1: "heap W1 ! 1 = heap tick_world ! 1"
    by simp
  from nets e0 st have n0: "\<not> net W1 ! 0"
    by auto
  from nets e0 e1 st have n1: "net W1 ! 1"
    by auto
  from made e0 e1 cs sw' h0 h1 n0 n1 show ?thesis
    by auto
qed

text \<open>
  Claim C10: after \<open>Pool.Close\<close> has completed, a later \<open>Acquire\<close> never fails with a
  pool-closed error: whenever \<open>activeConnections < MaxConn\<close> it dials and returns a brand-new
  connection, and since the body of \<open>Close\<close> runs at most once and the handle has no
  owning pool, no later pool operation closes that connection.

  \<open>Close\<close> closes \<open>closeChan\<close> before it takes the lock, and the health-check goroutine
  leaves its loop only when its \<open>select\<close> takes the \<open>closeChan\<close> case: a tick that has
  already been taken and waits for the lock, or that \<open>select\<close> picks while both cases are
  ready, runs after \<open>Close\<close> has completed, and its \<open>maintainPoolSize\<close> refills the idle list
  up to \<open>MinConn\<close>. From \<open>New\<close> with \<open>MinConn = 1\<close> and \<open>MaxConn = 4\<close>, \<open>Close\<close> and one such tick
  leave handle 1 idle and the counter at 2; \<open>Acquire\<close> then returns handle 1, which the tick
  had allocated, and dials nothing, although \<open>activeConnections < MaxConn\<close>.
\<close>

theorem Acquire_after_Close_and_tick:
  "after_ops (example_env (\<lambda>n. True)) (example_config 1 4) [OpPoolClose]
     = Some (shut_pool, closed_handle_world)
   \<and> after_ops (example_env (\<lambda>n. True)) (example_config 1 4) [OpPoolClose, OpTick]
     = Some (refilled_pool, released_world)
   \<and> closeOnce refilled_pool
   \<and> activeConnections refilled_pool <s MaxConn (config refilled_pool)
   \<and> Acquire (example_env (\<lambda>n. True)) refilled_pool released_world
       = (Inr 1, refilled_pool\<lparr>conns := []\<rparr>, released_world)
   \<and> 1 < length (heap released_world)"
  by code_simp

text \<open>
  Claim C10 as amended. Take a pool made by \<open>New\<close>, any operations on it, the \<open>Close\<close>
  whose body runs, and then any operations that callers and the health check can cause.
  The pool stays closed, and \<open>Acquire\<close> never looks at \<open>closeOnce\<close> or \<open>closeChan\<close>:

  \<^item> if the idle list is not empty (a tick has refilled it) \<open>Acquire\<close> returns its last
    handle, which is already allocated and has \<open>p = nil\<close>, and dials nothing;
  \<^item> if the idle list is empty, as it is when only exported methods were called since
    \<open>Close\<close>, then below \<open>MaxConn\<close> \<open>Acquire\<close> dials and returns the handle of a newly allocated
    \<open>WsConn\<close> with a newly dialled transport (or the dial's own error when the dial fails),
    and at \<open>MaxConn\<close> it returns "no available connections". The new handle has \<open>p = nil\<close>,
    and after any further operations (\<open>Acquire\<close>, \<open>Release\<close> of any handle, ticks,
    \<open>maintainPoolSize\<close>, \<open>Close\<close> of the pool, sends and reads on any handle, \<open>Close\<close> on other
    handles) its transport is still open.
\<close>

theorem Acquire_after_Pool_Close:
  assumes made: "New E cfg world0 = Returns (Inr P0, W0)"
    and before: "list_all (pool_op {}) ops1"
    and ran1: "run E ops1 (P0, W0) = Returns (P1, W1)"
    and first: "\<not> closeOnce P1"
    and closed: "Pool_Close E P1 W1 = Returns (P2, W2)"
    and after: "list_all (pool_op {}) ops2"
    and ran2: "run E ops2 (P2, W2) = Returns (P3, W3)"
    and acq: "Acquire E P3 W3 = (r, P4, W4)"
  shows "closeOnce P3
       \<and> (list_all caller_op ops2 \<longrightarrow> conns P3 = [])
       \<and> (conns P3 \<noteq> [] \<longrightarrow>
            r = Inr (last (conns P3)) \<and> P4 = P3\<lparr>conns := butlast (conns P3)\<rparr> \<and> W4 = W3
            \<and> last (conns P3) < length (heap W3) \<and> p (heap W3 ! last (conns P3)) = None)
       \<and> (conns P3 = [] \<longrightarrow>
            (activeConnections P3 <s MaxConn (config P3) \<longrightarrow>
               (case Dial E (URL (config P3)) (dialled W3) of
                  None \<Rightarrow> r = Inr (length (heap W3))
                | Some err \<Rightarrow> r = Inl err))
            \<and> (\<not> activeConnections P3 <s MaxConn (config P3) \<longrightarrow>
                 r = Inl (ErrorString ''no available connections''))
            \<and> (\<forall>h. r = Inr h \<longrightarrow>
                 h = length (heap W3) \<and> length (heap W4) = Suc h
                 \<and> c (heap W4 ! h) = Some (length (net W3))
                 \<and> length (net W4) = Suc (length (net W3))
                 \<and> p (heap W4 ! h) = None
                 \<and> (\<forall>ops3 P5 W5. list_all (pool_op {h}) ops3 \<longrightarrow>
                      run E ops3 (P4, W4) = Returns (P5, W5) \<longrightarrow>
                      (\<exists>t. c (heap W5 ! h) = Some t \<and> net W5 ! t))))"
    (is "_ \<and> ?callers \<and> (_ \<longrightarrow> ?idle) \<and> (_ \<longrightarrow> ?dial \<and> ?full \<and> ?new)")
proof -
  from run_inv [OF _ before ran1] New_inv [OF made] have i1: "pool_inv {} (conns P1) W1"
    by simp
  from Pool_Close_inv [OF i1 closed] have i2: "pool_inv {} (conns (fst (P2, W2))) (snd (P2, W2))"
    by simp
  from first closed have shut2: "closeOnce (fst (P2, W2))" "conns (fst (P2, W2)) = []"
    by (auto simp: Pool_Close_def split: outcome.splits)
  from run_grows [OF ran2] shut2(1) have once: "closeOnce P3"
    by (simp add: grows_def)
  have callers: "conns P3 = []" if "list_all caller_op ops2"
    using run_closed_empty [OF i2 shut2(2,1) that ran2] by simp
  from run_inv [OF i2 after ran2] have i3: "pool_inv {} (conns P3) W3"
    by simp
  have idle: "r = Inr (last (conns P3)) \<and> P4 = P3\<lparr>conns := butlast (conns P3)\<rparr> \<and> W4 = W3
            \<and> last (conns P3) < length (heap W3) \<and> p (heap W3 ! last (conns P3)) = None"
    if some: "conns P3 \<noteq> []"
  proof -
    from some have "last (conns P3) \<in> set (conns P3)"
      by simp
    with i3 have "last (conns P3) < length (heap W3)" "p (heap W3 ! last (conns P3)) = None"
      unfolding pool_inv_def by blast+
    moreover from some acq
    have "r = Inr (last (conns P3)) \<and> P4 = P3\<lparr>conns := butlast (conns P3)\<rparr> \<and> W4 = W3"
      by (auto simp: Acquire_def)
    ultimately show ?thesis
      by simp
  qed
  have dial: "case Dial E (URL (config P3)) (dialled W3) of
               None \<Rightarrow> r = Inr (length (heap W3))
             | Some err \<Rightarrow> r = Inl err"
    if "conns P3 = []" "activeConnections P3 <s MaxConn (config P3)"
    using that acq by (auto simp: Acquire_def newConnection_def split: option.splits)
  have full: "r = Inl (ErrorString ''no available connections'')"
    if "conns P3 = []" "\<not> activeConnections P3 <s MaxConn (config P3)"
    using that acq by (simp add: Acquire_def)
  have new: "h = length (heap W3) \<and> length (heap W4) = Suc h
            \<and> c (heap W4 ! h) = Some (length (net W3)) \<and> length (net W4) = Suc (length (net W3))
            \<and> p (heap W4 ! h) = None
            \<and> (\<forall>ops3 P5 W5. list_all (pool_op {h}) ops3 \<longrightarrow>
                 run E ops3 (P4, W4) = Returns (P5, W5) \<longrightarrow>
                 (\<exists>t. c (heap W5 ! h) = Some t \<and> net W5 ! t))"
    if none: "conns P3 = []" and r: "r = Inr h" for h
  proof -
    from acq r none have lt: "activeConnections P3 <s MaxConn (config P3)"
      by (auto simp: Acquire_def split: if_splits)
    obtain r1 P' W' where nc: "newConnection E P3 W3 = (r1, P', W')"
      by (cases "newConnection E P3 W3") auto
    with acq r none lt have r1: "r1 = Inr h" and P4: "conns P4 = conns P'" and W4: "W4 = W'"
      by (auto simp: Acquire_def split: sum.splits)
    note n = pool_inv_newConnection [OF i3 nc]
    from n(2) [OF r1] have h: "h = length (heap W3)" .
    from n(4) [OF r1] n(5) P4 W4 have i4: "pool_inv {h} (conns (fst (P4, W4))) (snd (P4, W4))"
      by simp
    from nc r1 W4 have shape: "length (heap W4) = Suc (length (heap W3))"
      "c (heap W4 ! length (heap W3)) = Some (length (net W3))"
      "length (net W4) = Suc (length (net W3))"
      "p (heap W4 ! length (heap W3)) = None"
      by (auto simp: newConnection_def split: option.splits)
    have later: "\<exists>t. c (heap W5 ! h) = Some t \<and> net W5 ! t"
      if "list_all (pool_op {h}) ops3" and "run E ops3 (P4, W4) = Returns (P5, W5)"
      for ops3 P5 W5
    proof -
      from run_inv [OF i4 that] have "pool_inv {h} (conns P5) W5"
        by simp
      then show ?thesis
        unfolding pool_inv_def by blast
    qed
    from h shape later show ?thesis
      by blast
  qed
  have c1: ?callers
    using callers by (rule impI)
  have c2: "conns P3 \<noteq> [] \<longrightarrow> ?idle"
    using idle by (rule impI)
  have c3: "conns P3 = [] \<longrightarrow> ?dial \<and> ?full \<and> ?new"
  proof
    assume none: "conns P3 = []"
    have ?dial
      using dial [OF none] by (rule impI)
    moreover have ?full
      using full [OF none] by (rule impI)
    moreover have ?new
      by (intro allI impI) (rule new [OF none])
    ultimately show "?dial \<and> ?full \<and> ?new"
      by (intro conjI)
  qed
  show ?thesis
    by (rule conjI [OF once conjI [OF c1 conjI [OF c2 c3]]])
qed

text \<open>
  \<open>New\<close> and \<open>Close\<close>; then \<open>Acquire\<close>, \<open>Release\<close> and a second \<open>Close\<close>, all calls of exported
  methods, leave the idle list empty; then \<open>Acquire\<close> returns the new handle 2. A tick
  (which refills the closed pool), a third \<open>Close\<close>, \<open>Release\<close> of the handle,
  \<open>maintainPoolSize\<close> and another \<open>Acquire\<close> leave it open. With a tick after the first \<open>Close\<close>
  instead, the idle list is not empty and \<open>Acquire\<close> returns the allocated handle 1 and
  leaves the world as it is.
\<close>

theorem Acquire_after_Pool_Close_witness:
  "New (example_env (\<lambda>n. True)) (example_config 1 4) world0 = Returns (Inr start_pool, one_world)
   \<and> Pool_Close (example_env (\<lambda>n. True)) start_pool one_world
       = Returns (shut_pool, closed_handle_world)
   \<and> list_all caller_op [OpAcquire, OpRelease 1, OpPoolClose]
   \<and> run (example_env (\<lambda>n. True)) [OpAcquire, OpRelease 1, OpPoolClose]
         (shut_pool, closed_handle_world)
       = Returns (shut_pool\<lparr>activeConnections := 3\<rparr>, late_world)
   \<and> closeOnce (shut_pool\<lparr>activeConnections := 3\<rparr>)
   \<and> conns (shut_pool\<lparr>activeConnections := 3\<rparr>) = []
   \<and> activeConnections (shut_pool\<lparr>activeConnections := 3\<rparr>)
       <s MaxConn (config (shut_pool\<lparr>activeConnections := 3\<rparr>))
   \<and> Acquire (example_env (\<lambda>n. True)) (shut_pool\<lparr>activeConnections := 3\<rparr>) late_world
       = (Inr 2, shut_pool\<lparr>activeConnections := 5\<rparr>, later_world)
   \<and> 2 = length (heap late_world)
   \<and> p (heap later_world ! 2) = None
   \<and> run (example_env (\<lambda>n. True)) [OpTick, OpPoolClose, OpRelease 2, OpMaintain, OpAcquire]
         (shut_pool\<lparr>activeConnections := 5\<rparr>, later_world)
       = Returns (shut_pool\<lparr>activeConnections := 6\<rparr>, last_world)
   \<and> (\<exists>t. c (heap last_world ! 2) = Some t \<and> net last_world ! t)
   \<and> run (example_env (\<lambda>n. True)) [OpTick] (shut_pool, closed_handle_world)
       = Returns (refilled_pool, released_world)
   \<and> closeOnce refilled_pool
   \<and> conns refilled_pool \<noteq> []
   \<and> Acquire (example_env (\<lambda>n. True)) refilled_pool released_world
       = (Inr (last (conns refilled_pool)),
          refilled_pool\<lparr>conns := butlast (conns refilled_pool)\<rparr>, released_world)
   \<and> last (conns refilled_pool) < length (heap released_world)
   \<and> p (heap released_world ! last (conns refilled_pool)) = None"
proof -
  let ?E = "example_env (\<lambda>n. True)"
  have made: "New ?E (example_config 1 4) world0 = Returns (Inr start_pool, one_world)"
    by code_simp
  have before: "list_all (pool_op {}) []"
    by simp
  have ran1: "run ?E [] (start_pool, one_world) = Returns (start_pool, one_world)"
    by simp
  have first: "\<not> closeOnce start_pool"
    by (simp add: start_pool_def)
  have closed: "Pool_Close ?E start_pool one_world = Returns (shut_pool, closed_handle_world)"
    by code_simp
  have callers: "list_all caller_op [OpAcquire, OpRelease 1, OpPoolClose]"
    by simp
  have after: "list_all (pool_op {}) [OpAcquire, OpRelease 1, OpPoolClose]"
    by simp
  have ran2: "run ?E [OpAcquire, OpRelease 1, OpPoolClose] (shut_pool, closed_handle_world)
       = Returns (shut_pool\<lparr>activeConnections := 3\<rparr>, late_world)"
    by code_simp
  have below: "activeConnections (shut_pool\<lparr>activeConnections := 3\<rparr>)
       <s MaxConn (config (shut_pool\<lparr>activeConnections := 3\<rparr>))"
    by code_simp
  have acq: "Acquire ?E (shut_pool\<lparr>activeConnections := 3\<rparr>) late_world
      = (Inr 2, shut_pool\<lparr>activeConnections := 5\<rparr>, later_world)"
    by code_simp
  have ops: "list_all (pool_op {2}) [OpTick, OpPoolClose, OpRelease 2, OpMaintain, OpAcquire]"
    by simp
  have ran3: "run ?E [OpTick, OpPoolClose, OpRelease 2, OpMaintain, OpAcquire]
         (shut_pool\<lparr>activeConnections := 5\<rparr>, later_world)
       = Returns (shut_pool\<lparr>activeConnections := 6\<rparr>, last_world)"
    by code_simp
  note dialling = Acquire_after_Pool_Close [OF made before ran1 first closed after ran2 acq]
  from dialling callers have shut: "closeOnce (shut_pool\<lparr>activeConnections := 3\<rparr>)"
    "conns (shut_pool\<lparr>activeConnections := 3\<rparr>) = []"
    by blast+
  from dialling shut(2) have fresh: "2 = length (heap late_world)"
    "p (heap later_world ! 2) = None"
    by blast+
  from dialling shut(2) ops ran3
  have still: "\<exists>t. c (heap last_world ! 2) = Some t \<and> net last_world ! t"
    by blast
  have tick: "list_all (pool_op {}) [OpTick]"
    by simp
  have ran2': "run ?E [OpTick] (shut_pool, closed_handle_world)
       = Returns (refilled_pool, released_world)"
    by code_simp
  have some: "conns refilled_pool \<noteq> []"
    by (simp add: refilled_pool_def)
  obtain r P4 W4 where acq': "Acquire ?E refilled_pool released_world = (r, P4, W4)"
    by (cases "Acquire ?E refilled_pool released_world") auto
  note popping = Acquire_after_Pool_Close [OF made before ran1 first closed tick ran2' acq']
  from popping have once: "closeOnce refilled_pool"
    by blast
  from popping some
  have "r = Inr (last (conns refilled_pool))
      \<and> P4 = refilled_pool\<lparr>conns := butlast (conns refilled_pool)\<rparr> \<and> W4 = released_world
      \<and> last (conns refilled_pool) < length (heap released_world)
      \<and> p (heap released_world ! last (conns refilled_pool)) = None"
    by blast
  with acq' have idle: "Acquire ?E refilled_pool released_world
       = (Inr (last (conns refilled_pool)),
          refilled_pool\<lparr>conns := butlast (conns refilled_pool)\<rparr>, released_world)"
    "last (conns refilled_pool) < length (heap released_world)"
    "p (heap released_world ! last (conns refilled_pool)) = None"
    by simp_all
  show ?thesis
    by (intro conjI made closed callers ran2 shut below acq fresh ran3 still ran2' once some idle)
qed

end
